theory Spec2Isabelle
  imports Main "HOL-Library.Monad_Syntax"
begin

section \<open>Strings, colours and frames\<close>

text \<open>
  A Python \<open>str\<close> is a sequence of Unicode code points and \<open>len\<close> counts code points.
  The glyphs used by \<open>utils/ui.py\<close> lie outside the 8-bit range of \<open>char\<close>, so a string is
  modelled as the list of its code points; \<open>ascii\<close> embeds an ASCII literal.
\<close>

type_synonym str = "nat list"

definition ascii :: "string \<Rightarrow> str" where
  "ascii s = map of_char s"

text \<open>The members of class \<open>Colors\<close> that the spinner code uses (\<open>\033\<close> is code point 27).\<close>

definition CYAN :: str where
  "CYAN = 27 # ascii ''[96m''"

definition GREEN :: str where
  "GREEN = 27 # ascii ''[92m''"

definition RED :: str where
  "RED = 27 # ascii ''[91m''"

definition ENDC :: str where
  "ENDC = 27 # ascii ''[0m''"

text \<open>The check mark U+2713 and the ballot cross U+2717.\<close>

definition CHECK :: str where
  "CHECK = [10003]"

definition CROSS :: str where
  "CROSS = [10007]"

text \<open>\<open>Spinner.FRAMES\<close>: the ten braille glyphs U+280B, U+2819, U+2839, U+2838, U+283C,
  U+2834, U+2826, U+2827, U+2807, U+280F, in the order of the source.\<close>

definition FRAMES :: "str list" where
  "FRAMES = [[10251], [10265], [10297], [10296], [10300], [10292], [10278], [10279], [10247], [10255]]"

section \<open>Observable events\<close>

text \<open>
  Two execution units touch a Spinner: the caller (\<open>Fg\<close>) and the daemon thread running
  \<open>_animate\<close> (\<open>Bg\<close>). Every effect of the code is appended to one trace, in the order in which
  it happens: \<open>sys.stdout.write\<close>, \<open>print\<close> (which adds the newline), \<open>sys.stdout.flush\<close> and
  \<open>time.sleep\<close> (the argument 0.08 s recorded in milliseconds). \<open>Call\<close> entries record the
  invocations of the Spinner's methods; they are bookkeeping of the model, not output.
\<close>

datatype actor = Fg | Bg

datatype call = Start | Stop str str str | UpdateMessage str

datatype event =
    Call call
  | Write actor str
  | Print str
  | Flush actor
  | Sleep nat

section \<open>The Spinner\<close>

text \<open>
  The animation thread is modelled statement by statement: \<open>label\<close> is the statement of
  \<open>_animate\<close> the thread executes next, \<open>idx\<close> and \<open>frame\<close> are its local variables. The
  statement of line 80 takes two steps, since the caller may run between them: building the
  string, which reads \<open>self.color\<close> and \<open>self.message\<close>, and the call of \<open>sys.stdout.write\<close>
  with the string built (\<open>built\<close>).
\<close>

datatype label =
  At_idx0 | At_while | At_frame | At_format | At_write | At_flush | At_sleep | At_incr | Exited

record thread =
  pc :: label
  idx :: nat
  frame :: str
  built :: str

text \<open>The attributes of a Spinner object, and the trace of events since its construction.\<close>

record world =
  message :: str
  color :: str
  running :: bool
  thread :: "thread option"
  trace :: "event list"

definition Spinner_init :: "str \<Rightarrow> str \<Rightarrow> world" where
  "Spinner_init msg col =
     \<lparr>message = msg, color = col, running = False, thread = None, trace = []\<rparr>"

definition emit :: "event \<Rightarrow> world \<Rightarrow> world" where
  "emit e w = w\<lparr>trace := trace w @ [e]\<rparr>"

text \<open>The string built by line 80: \<open>f"\r{self.color}{frame}{Colors.ENDC} {self.message}"\<close>.\<close>

definition frame_line :: "str \<Rightarrow> str \<Rightarrow> str \<Rightarrow> str" where
  "frame_line col fr msg = 13 # col @ fr @ ENDC @ 32 # msg"

text \<open>One step of \<open>_animate\<close>, executed by the animation thread (lines 76 to 83).\<close>

definition animate_step :: "world \<Rightarrow> world" where
  "animate_step w =
     (case thread w of
        None \<Rightarrow> w
      | Some t \<Rightarrow>
          (case pc t of
             At_idx0 \<Rightarrow> w\<lparr>thread := Some (t\<lparr>pc := At_while, idx := 0\<rparr>)\<rparr>
           | At_while \<Rightarrow>
               w\<lparr>thread := Some (t\<lparr>pc := (if running w then At_frame else Exited)\<rparr>)\<rparr>
           | At_frame \<Rightarrow>
               w\<lparr>thread := Some (t\<lparr>pc := At_format, frame := FRAMES ! (idx t mod length FRAMES)\<rparr>)\<rparr>
           | At_format \<Rightarrow>
               w\<lparr>thread := Some (t\<lparr>pc := At_write,
                                     built := frame_line (color w) (frame t) (message w)\<rparr>)\<rparr>
           | At_write \<Rightarrow> (emit (Write Bg (built t)) w)\<lparr>thread := Some (t\<lparr>pc := At_flush\<rparr>)\<rparr>
           | At_flush \<Rightarrow> (emit (Flush Bg) w)\<lparr>thread := Some (t\<lparr>pc := At_sleep\<rparr>)\<rparr>
           | At_sleep \<Rightarrow> (emit (Sleep 80) w)\<lparr>thread := Some (t\<lparr>pc := At_incr\<rparr>)\<rparr>
           | At_incr \<Rightarrow> w\<lparr>thread := Some (t\<lparr>pc := At_while, idx := idx t + 1\<rparr>)\<rparr>
           | Exited \<Rightarrow> w))"

definition thread_alive :: "world \<Rightarrow> bool" where
  "thread_alive w = (case thread w of None \<Rightarrow> False | Some t \<Rightarrow> pc t \<noteq> Exited)"

text \<open>\<open>Spinner.start\<close> (lines 92 to 95). The new thread has not yet taken a step.\<close>

definition start :: "world \<Rightarrow> world" where
  "start w0 =
     (let w = emit (Call Start) w0 in
      if \<not> running w
      then w\<lparr>running := True, thread := Some \<lparr>pc = At_idx0, idx = 0, frame = [], built = []\<rparr>\<rparr>
      else w)"

text \<open>\<open>Spinner.update_message\<close> (line 126).\<close>

definition update_message :: "str \<Rightarrow> world \<Rightarrow> world" where
  "update_message msg w = (emit (Call (UpdateMessage msg)) w)\<lparr>message := msg\<rparr>"

text \<open>
  \<open>Thread.join()\<close> without a timeout: the caller is blocked, so only the animation thread
  runs, step by step, until it has left \<open>_animate\<close>. The loop need not end (it does
  not while \<open>running\<close> stays true), hence the option type: \<open>None\<close> is a caller blocked forever.
\<close>

partial_function (option) join :: "world \<Rightarrow> world option" where
  "join w = (if thread_alive w then join (animate_step w) else Some w)"

declare join.simps [code]

text \<open>\<open>Spinner.stop\<close> (lines 109 to 117).\<close>

definition clear_line :: "str \<Rightarrow> str" where
  "clear_line msg = 13 # replicate (length msg + 10) 32 @ [13]"

definition final_line :: "str \<Rightarrow> str \<Rightarrow> str \<Rightarrow> str" where
  "final_line symbol_color symbol final_message = symbol_color @ symbol @ ENDC @ 32 # final_message"

definition stop :: "str \<Rightarrow> str \<Rightarrow> str \<Rightarrow> world \<Rightarrow> world option" where
  "stop final_message symbol symbol_color w0 =
     (let w = emit (Call (Stop final_message symbol symbol_color)) w0 in
      if running w then do {
        let w1 = w\<lparr>running := False\<rparr>;
        w2 \<leftarrow> (if thread w1 \<noteq> None then join w1 else Some w1);
        let w3 = emit (Write Fg (clear_line (message w2))) w2;
        let w4 = (if final_message \<noteq> []
                  then emit (Print (final_line symbol_color symbol final_message)) w3
                  else w3);
        Some (emit (Flush Fg) w4)
      } else Some w)"

section \<open>Exceptions and units of work\<close>

text \<open>
  A raised object is described by what the code can observe of it: whether \<open>except Exception\<close>
  matches it, what \<open>str(e)\<close> does, and whether it is a \<open>StopIteration\<close>, which a generator
  such as \<open>UI.progress\<close> cannot let through. The root is the built-in class from which the
  class of the object derives: one of the four classes directly below \<open>BaseException\<close>, or
  \<open>StopIteration\<close>, itself below \<open>Exception\<close>; \<open>except Exception\<close> matches the first two only.
  \<open>str(e)\<close> calls the \<open>__str__\<close> of that class: it returns a string (\<open>Exn\<close>), or it raises an
  exception in its turn (\<open>Unprintable\<close>).
\<close>

datatype exn_root = Exception | StopIteration | KeyboardInterrupt | SystemExit | GeneratorExit

datatype exn = Exn (root: exn_root) str | Unprintable (root: exn_root) exn

definition isinstance_Exception :: "exn \<Rightarrow> bool" where
  "isinstance_Exception e = (root e = Exception \<or> root e = StopIteration)"

fun py_str :: "exn \<Rightarrow> exn + str" where
  "py_str (Exn r d) = Inr d"
| "py_str (Unprintable r e') = Inl e'"

datatype 'a outcome = Return 'a | Raise exn

text \<open>
  While the enclosed work runs, the animation thread runs too. The work is described by the
  interleaving it produces: its calls of \<open>update_message\<close> on the yielded Spinner and, between
  them, the steps the animation thread gets to take (\<open>Bg_step\<close>); then it returns or raises.
\<close>

datatype act = Update str | Bg_step

fun run_work :: "act list \<Rightarrow> world \<Rightarrow> world" where
  "run_work [] w = w"
| "run_work (Update m # as) w = run_work as (update_message m w)"
| "run_work (Bg_step # as) w = run_work as (animate_step w)"

section \<open>The Progress Scope\<close>

text \<open>Python's \<open>str.replace(old, new)\<close>: every non-overlapping occurrence, from the left.\<close>

function str_replace :: "str \<Rightarrow> str \<Rightarrow> str \<Rightarrow> str" where
  "str_replace old new [] = (if old = [] then new else [])"
| "str_replace old new (c # cs) =
     (if old = [] then new @ c # str_replace old new cs
      else if take (length old) (c # cs) = old
      then new @ str_replace old new (drop (length old) (c # cs))
      else c # str_replace old new cs)"
  by pat_completeness auto
termination
  by (relation "measure (\<lambda>(old, new, s). length s)") auto

text \<open>Lines 157 and 212: \<open>success_message or message.replace("...", " \<checkmark>")\<close>.\<close>

definition success_msg :: "str \<Rightarrow> str \<Rightarrow> str" where
  "success_msg msg success_message =
     (if success_message \<noteq> [] then success_message
      else str_replace (ascii ''...'') (32 # CHECK) msg)"

text \<open>
  Lines 162 and 215: \<open>f"Failed: {str(e)}"\<close>, the argument of \<open>stop\<close> in the handler. It is
  evaluated before \<open>stop\<close> is entered, and it raises what \<open>str(e)\<close> raises.
\<close>

definition failure_msg :: "exn \<Rightarrow> exn + str" where
  "failure_msg e = (case py_str e of Inl e' \<Rightarrow> Inl e' | Inr d \<Rightarrow> Inr (ascii ''Failed: '' @ d))"

text \<open>
  \<open>UI.current_spinner\<close> is \<open>None\<close> or refers to the Spinner of the activation in progress.
\<close>

datatype spinner_ref = Active_spinner

record ui =
  current_spinner :: "spinner_ref option"

text \<open>
  \<open>UI.progress\<close> is a generator under \<open>@contextmanager\<close> (line 184). The exception of the
  enclosed work is thrown into it at the \<open>yield\<close>; when the generator raises that exception
  again, the \<open>with\<close> statement lets it propagate, a \<open>StopIteration\<close> too. Another exception
  that leaves the body of the generator propagates from the \<open>with\<close> statement as the generator
  raises it: a \<open>StopIteration\<close> does not leave a generator, the generator raises
  \<open>RuntimeError("generator raised StopIteration")\<close> in its place, and any other exception
  leaves it as it is.
\<close>

definition generator_raises :: "exn \<Rightarrow> exn" where
  "generator_raises e =
     (if root e = StopIteration then Exn Exception (ascii ''generator raised StopIteration'')
      else e)"

text \<open>
  \<open>UI.progress\<close> (lines 206 to 218) together with the \<open>with\<close> statement that runs the
  enclosed work at the \<open>yield\<close>. An exception that \<open>except Exception\<close> does not match passes
  through the \<open>finally\<close> clause only. In the handler, an exception raised while the argument
  of \<open>stop\<close> is built leaves the handler before \<open>stop\<close> and the \<open>raise\<close> are reached, through the
  \<open>finally\<close> clause too, and then leaves the body of the generator.
\<close>

definition progress ::
  "ui \<Rightarrow> str \<Rightarrow> str \<Rightarrow> act list \<times> 'a outcome \<Rightarrow> (ui \<times> world \<times> 'a outcome) option" where
  "progress self msg success_message work =
     (let spinner = Spinner_init msg CYAN;
          self1 = self\<lparr>current_spinner := Some Active_spinner\<rparr>;
          w1 = start spinner;
          w2 = run_work (fst work) w1
      in case snd work of
           Return v \<Rightarrow> do {
             w3 \<leftarrow> stop (success_msg msg success_message) CHECK GREEN w2;
             Some (self1\<lparr>current_spinner := None\<rparr>, w3, Return v)
           }
         | Raise e \<Rightarrow>
             if isinstance_Exception e then
               (case failure_msg e of
                  Inl e' \<Rightarrow> Some (self1\<lparr>current_spinner := None\<rparr>, w2, Raise (generator_raises e'))
                | Inr failed \<Rightarrow> do {
                    w3 \<leftarrow> stop failed CROSS RED w2;
                    Some (self1\<lparr>current_spinner := None\<rparr>, w3, Raise e)
                  })
             else Some (self1\<lparr>current_spinner := None\<rparr>, w2, Raise e))"

text \<open>
  \<open>show_progress(message, success_message)(func)(*args, **kwargs)\<close> (lines 151 to 163).
  The wrapped function has no handle on the Spinner: calling it lets the animation thread
  take some number of steps and then returns or raises. The wrapper is a plain function:
  an exception raised in its handler propagates as it is.
\<close>

definition show_progress ::
  "str \<Rightarrow> str \<Rightarrow> ('b \<Rightarrow> nat \<times> 'a outcome) \<Rightarrow> 'b \<Rightarrow> (world \<times> 'a outcome) option" where
  "show_progress msg success_message func args =
     (let spinner = Spinner_init msg CYAN;
          w1 = start spinner;
          w2 = (animate_step ^^ fst (func args)) w1
      in case snd (func args) of
           Return result \<Rightarrow> do {
             w3 \<leftarrow> stop (success_msg msg success_message) CHECK GREEN w2;
             Some (w3, Return result)
           }
         | Raise e \<Rightarrow>
             if isinstance_Exception e then
               (case failure_msg e of
                  Inl e' \<Rightarrow> Some (w2, Raise e')
                | Inr failed \<Rightarrow> do {
                    w3 \<leftarrow> stop failed CROSS RED w2;
                    Some (w3, Raise e)
                  })
             else Some (w2, Raise e))"

section \<open>Reading a trace\<close>

text \<open>Who issued an event, and the method calls a trace records.\<close>

fun by_bg :: "event \<Rightarrow> bool" where
  "by_bg (Write Bg x) = True"
| "by_bg (Flush Bg) = True"
| "by_bg (Sleep d) = True"
| "by_bg e = False"

fun calls :: "event list \<Rightarrow> call list" where
  "calls [] = []"
| "calls (Call c # es) = c # calls es"
| "calls (e # es) = calls es"

fun console :: "event list \<Rightarrow> event list" where
  "console [] = []"
| "console (Call c # es) = console es"
| "console (e # es) = e # console es"

text \<open>The characters a trace sends to the terminal; \<open>print\<close> ends its line with a newline.\<close>

fun stdout_text :: "event list \<Rightarrow> str" where
  "stdout_text [] = []"
| "stdout_text (Write a x # es) = x @ stdout_text es"
| "stdout_text (Print x # es) = x @ 10 # stdout_text es"
| "stdout_text (e # es) = stdout_text es"

fun is_start :: "call \<Rightarrow> bool" where
  "is_start Start = True"
| "is_start c = False"

fun is_stop :: "call \<Rightarrow> bool" where
  "is_stop (Stop final_message symbol symbol_color) = True"
| "is_stop c = False"

fun updates :: "act list \<Rightarrow> str list" where
  "updates [] = []"
| "updates (Update m # as) = m # updates as"
| "updates (Bg_step # as) = updates as"

text \<open>The steps the animation thread still takes once \<open>running\<close> is false.\<close>

definition steps_left :: "world \<Rightarrow> nat" where
  "steps_left w =
     (case thread w of
        None \<Rightarrow> 0
      | Some t \<Rightarrow>
          (case pc t of
             At_idx0 \<Rightarrow> 2 | At_while \<Rightarrow> 1 | At_frame \<Rightarrow> 7 | At_format \<Rightarrow> 6 | At_write \<Rightarrow> 5
           | At_flush \<Rightarrow> 4 | At_sleep \<Rightarrow> 3 | At_incr \<Rightarrow> 2 | Exited \<Rightarrow> 0))"

definition finish :: "world \<Rightarrow> world" where
  "finish w = (animate_step ^^ steps_left w) w"

subsection \<open>The animation as the specification describes it\<close>

text \<open>
  A monitor reads a trace from the left and accepts it when the animation thread's events
  are those of tick 0, tick 1, and so on, tick \<open>n\<close> being: one write of
  \<open>"\r" + color + FRAMES[n mod len(FRAMES)] + ENDC + " " + message\<close>, one flush, one sleep of
  80 ms. The message of a write is one that was set at some moment since the tick began, that
  is, since the sleep of the tick before: \<open>seen\<close> lists them, the latest first, and holds the
  latest alone when \<open>update_message\<close> has not been called meanwhile. Events of the caller are
  skipped, except that \<open>update_message\<close> changes the messages to expect.
\<close>

datatype phase = Await_write | Await_flush | Await_sleep

record monitor =
  phase :: phase
  tick :: nat
  shown :: str
  seen :: "str list"

fun observe :: "str \<Rightarrow> monitor \<Rightarrow> event \<Rightarrow> monitor option" where
  "observe col s (Call (UpdateMessage m)) = Some (s\<lparr>shown := m, seen := m # seen s\<rparr>)"
| "observe col s (Write Bg x) =
     (if phase s = Await_write
         \<and> list_ex (\<lambda>m. x = 13 # col @ FRAMES ! (tick s mod length FRAMES) @ ENDC @ 32 # m) (seen s)
      then Some (s\<lparr>phase := Await_flush\<rparr>) else None)"
| "observe col s (Flush Bg) =
     (if phase s = Await_flush then Some (s\<lparr>phase := Await_sleep\<rparr>) else None)"
| "observe col s (Sleep d) =
     (if phase s = Await_sleep \<and> d = 80
      then Some (s\<lparr>phase := Await_write, tick := tick s + 1, seen := [shown s]\<rparr>) else None)"
| "observe col s e = Some s"

fun accepts :: "str \<Rightarrow> monitor \<Rightarrow> event list \<Rightarrow> monitor option" where
  "accepts col s [] = Some s"
| "accepts col s (e # es) =
     (case observe col s e of None \<Rightarrow> None | Some s' \<Rightarrow> accepts col s' es)"

definition monitor0 :: "str \<Rightarrow> monitor" where
  "monitor0 msg = \<lparr>phase = Await_write, tick = 0, shown = msg, seen = [msg]\<rparr>"

text \<open>The events of tick \<open>n\<close> when it shows the message \<open>msg\<close>.\<close>

definition tick_events :: "str \<Rightarrow> str \<Rightarrow> nat \<Rightarrow> event list" where
  "tick_events col msg n =
     [Write Bg (13 # col @ FRAMES ! (n mod length FRAMES) @ ENDC @ 32 # msg), Flush Bg, Sleep 80]"

text \<open>
  Each frame write of a trace, paired with the messages that were set at some moment since
  its tick began, the latest first.
\<close>

fun rendered :: "str list \<Rightarrow> event list \<Rightarrow> (str \<times> str list) list" where
  "rendered ms [] = []"
| "rendered ms (Call (UpdateMessage m) # es) = rendered (m # ms) es"
| "rendered ms (Write Bg x # es) = (x, ms) # rendered ms es"
| "rendered ms (Sleep d # es) = rendered (take 1 ms) es"
| "rendered ms (e # es) = rendered ms es"

text \<open>
  How far the message last set has got: \<open>Dirty\<close> after a call of \<open>update_message\<close>, \<open>Fresh\<close>
  once the animation thread has slept since, so that its next tick reads the message anew
  (and at the start), \<open>Shown\<close> once a frame has been written since.
\<close>

datatype freshness = Dirty | Fresh | Shown

fun settle :: "freshness \<Rightarrow> event list \<Rightarrow> freshness" where
  "settle f [] = f"
| "settle f (Call (UpdateMessage m) # es) = settle Dirty es"
| "settle f (Write Bg x # es) = settle (if f = Fresh then Shown else f) es"
| "settle f (Sleep d # es) = settle (if f = Dirty then Fresh else f) es"
| "settle f (e # es) = settle f es"

text \<open>The state of the monitor that corresponds to a state of the animation thread.\<close>

definition phase_at :: "label \<Rightarrow> phase" where
  "phase_at l = (case l of At_flush \<Rightarrow> Await_flush | At_sleep \<Rightarrow> Await_sleep | _ \<Rightarrow> Await_write)"

definition tick_at :: "thread \<Rightarrow> nat" where
  "tick_at t = (if pc t = At_incr then idx t + 1 else if pc t = At_idx0 then 0 else idx t)"

definition in_sync :: "str \<Rightarrow> world \<Rightarrow> bool" where
  "in_sync msg w =
     (case thread w of
        None \<Rightarrow> False
      | Some t \<Rightarrow>
          (case accepts (color w) (monitor0 msg) (trace w) of
             None \<Rightarrow> False
           | Some s \<Rightarrow>
               phase s = phase_at (pc t) \<and> tick s = tick_at t \<and> shown s = message w
               \<and> seen s \<noteq> [] \<and> hd (seen s) = message w
               \<and> (pc t = At_format \<longrightarrow> frame t = FRAMES ! (idx t mod length FRAMES))
               \<and> (pc t = At_write \<longrightarrow>
                    list_ex (\<lambda>m. built t = frame_line (color w) (FRAMES ! (idx t mod length FRAMES)) m)
                      (seen s))))"

text \<open>
  The exits of the enclosed work after which the scope reaches its call of \<open>stop\<close>: a normal
  return, and an exception that \<open>except Exception\<close> matches and whose \<open>str(e)\<close> returns. The
  exit at which the scope raises another exception than the work did: an exception that
  \<open>except Exception\<close> matches and whose \<open>str(e)\<close> raises. Among the latter, the exit at which
  the generator \<open>UI.progress\<close> raises another exception than its handler did: \<open>str(e)\<close> raises
  a \<open>StopIteration\<close>.
\<close>

fun handled :: "'a outcome \<Rightarrow> bool" where
  "handled (Return v) = True"
| "handled (Raise e) = (isinstance_Exception e \<and> \<not> isl (py_str e))"



text \<open>
  Five callables for concrete instances: one returns after the animation thread has taken
  three steps, one fails with the error \<open>disk full\<close> after four, one is interrupted from the
  keyboard after two, one fails after two with an error whose \<open>__str__\<close> raises an error
  \<open>no text\<close>, one fails after two with an error whose \<open>__str__\<close> raises a \<open>StopIteration\<close> (as a
  call of \<open>next\<close> on an exhausted iterator does).
\<close>

definition quick_task :: "unit \<Rightarrow> nat \<times> unit outcome" where
  "quick_task u = (3, Return ())"


definition interrupted_task :: "unit \<Rightarrow> nat \<times> unit outcome" where
  "interrupted_task u = (2, Raise (Exn KeyboardInterrupt []))"

definition unprintable_task :: "unit \<Rightarrow> nat \<times> unit outcome" where
  "unprintable_task u = (2, Raise (Unprintable Exception (Exn Exception (ascii ''no text''))))"


text \<open>
  A Spinner in mid-animation, for concrete instances: \<open>Spinner("Working...")\<close> started, its
  thread stopped by the scheduler right after the first frame write.
\<close>

definition working_spinner :: world where
  "working_spinner = (animate_step ^^ 5) (start (Spinner_init (ascii ''Working...'') CYAN))"

section \<open>Facts about the animation thread and the join\<close>

lemma animate_step_fields [simp]:
  "message (animate_step w) = message w"
  "color (animate_step w) = color w"
  "running (animate_step w) = running w"
  by (auto simp: animate_step_def emit_def split: option.splits label.splits)

lemma animate_step_thread_None [simp]:
  "thread (animate_step w) = None \<longleftrightarrow> thread w = None"
  by (auto simp: animate_step_def emit_def split: option.splits label.splits)

lemma animate_step_trace:
  "\<exists>es. trace (animate_step w) = trace w @ es \<and> list_all by_bg es"
  by (auto simp: animate_step_def emit_def split: option.splits label.splits)

lemma funpow_animate_fields [simp]:
  "message ((animate_step ^^ n) w) = message w"
  "color ((animate_step ^^ n) w) = color w"
  "running ((animate_step ^^ n) w) = running w"
  by (induction n) auto

lemma funpow_animate_thread_None [simp]:
  "thread ((animate_step ^^ n) w) = None \<longleftrightarrow> thread w = None"
  by (induction n) auto

lemma funpow_animate_trace:
  "\<exists>es. trace ((animate_step ^^ n) w) = trace w @ es \<and> list_all by_bg es"
proof (induction n)
  case 0
  show ?case by simp
next
  case (Suc n)
  then obtain es where es: "trace ((animate_step ^^ n) w) = trace w @ es" "list_all by_bg es"
    by blast
  obtain fs where fs: "trace (animate_step ((animate_step ^^ n) w)) = trace ((animate_step ^^ n) w) @ fs"
    "list_all by_bg fs"
    using animate_step_trace by blast
  have "trace ((animate_step ^^ Suc n) w) = trace w @ (es @ fs)" "list_all by_bg (es @ fs)"
    using es fs by simp_all
  then show ?case by blast
qed

lemma alive_steps_left: "thread_alive w \<longleftrightarrow> 0 < steps_left w"
  by (auto simp: thread_alive_def steps_left_def split: option.splits label.splits)

lemma steps_left_step:
  "\<not> running w \<Longrightarrow> thread_alive w \<Longrightarrow> Suc (steps_left (animate_step w)) = steps_left w"
  by (auto simp: thread_alive_def steps_left_def animate_step_def emit_def
      split: option.splits label.splits)

lemma dead_step: "\<not> thread_alive w \<Longrightarrow> animate_step w = w"
  by (auto simp: thread_alive_def animate_step_def split: option.splits label.splits)

lemma dead_steps: "\<not> thread_alive w \<Longrightarrow> (animate_step ^^ n) w = w"
  by (induction n) (auto simp: dead_step)

lemma join_finish_aux:
  "\<not> running w \<Longrightarrow> steps_left w = n \<Longrightarrow>
     join w = Some ((animate_step ^^ n) w) \<and> \<not> thread_alive ((animate_step ^^ n) w)"
proof (induction n arbitrary: w)
  case 0
  then have "\<not> thread_alive w" by (simp add: alive_steps_left)
  then show ?case by (subst join.simps) simp
next
  case (Suc n)
  then have alive: "thread_alive w" by (simp add: alive_steps_left)
  with Suc.prems have "steps_left (animate_step w) = n"
    using steps_left_step [of w] by simp
  moreover have "\<not> running (animate_step w)" using Suc.prems by simp
  ultimately have "join (animate_step w) = Some ((animate_step ^^ n) (animate_step w))"
    "\<not> thread_alive ((animate_step ^^ n) (animate_step w))"
    using Suc.IH by blast+
  then show ?case
    using alive by (subst join.simps) (simp add: funpow_swap1)
qed

lemma join_finish: "\<not> running w \<Longrightarrow> join w = Some (finish w)"
  by (simp add: finish_def join_finish_aux)

lemma finish_dead: "\<not> running w \<Longrightarrow> \<not> thread_alive (finish w)"
  by (simp add: finish_def join_finish_aux)

lemma finish_fields [simp]:
  "message (finish w) = message w"
  "color (finish w) = color w"
  "running (finish w) = running w"
  by (simp_all add: finish_def)

lemma finish_trace: "\<exists>es. trace (finish w) = trace w @ es \<and> list_all by_bg es"
  unfolding finish_def by (rule funpow_animate_trace)

lemma finish_no_thread: "thread w = None \<Longrightarrow> finish w = w"
  by (simp add: finish_def steps_left_def)

lemma emit_fields [simp]:
  "message (emit e w) = message w"
  "color (emit e w) = color w"
  "running (emit e w) = running w"
  "thread (emit e w) = thread w"
  "trace (emit e w) = trace w @ [e]"
  by (simp_all add: emit_def)

lemma stop_running:
  assumes "running w"
  shows "stop fm sy scol w =
    Some (emit (Flush Fg)
      ((if fm \<noteq> [] then emit (Print (final_line scol sy fm)) else id)
        (emit (Write Fg (clear_line (message w)))
          (finish ((emit (Call (Stop fm sy scol)) w)\<lparr>running := False\<rparr>)))))"
proof -
  let ?w1 = "(emit (Call (Stop fm sy scol)) w)\<lparr>running := False\<rparr>"
  have r: "running (emit (Call (Stop fm sy scol)) w)"
    using assms by simp
  have j: "(if thread ?w1 \<noteq> None then join ?w1 else Some ?w1) = Some (finish ?w1)"
    by (simp add: join_finish finish_no_thread)
  show ?thesis
    unfolding stop_def Let_def j using r by simp
qed

lemma stop_not_running:
  "\<not> running w \<Longrightarrow> stop fm sy scol w = Some (emit (Call (Stop fm sy scol)) w)"
  by (simp add: stop_def Let_def)

lemma calls_append [simp]: "calls (xs @ ys) = calls xs @ calls ys"
  by (induction xs rule: calls.induct) simp_all

lemma console_append [simp]: "console (xs @ ys) = console xs @ console ys"
  by (induction xs rule: console.induct) simp_all

lemma stdout_text_append [simp]: "stdout_text (xs @ ys) = stdout_text xs @ stdout_text ys"
  by (induction xs rule: stdout_text.induct) simp_all

lemma by_bg_calls: "list_all by_bg es \<Longrightarrow> calls es = []"
  by (induction es rule: calls.induct) simp_all

lemma by_bg_console: "list_all by_bg es \<Longrightarrow> console es = es"
  by (induction es rule: console.induct) simp_all

lemma stop_running_trace:
  assumes "running w"
  shows "\<exists>w' bg. stop fm sy scol w = Some w' \<and> \<not> running w' \<and> \<not> thread_alive w'
           \<and> message w' = message w \<and> color w' = color w \<and> list_all by_bg bg
           \<and> trace w' = trace w @ Call (Stop fm sy scol) # bg
                @ Write Fg (clear_line (message w))
                # (if fm \<noteq> [] then [Print (final_line scol sy fm)] else []) @ [Flush Fg]"
proof -
  let ?w1 = "(emit (Call (Stop fm sy scol)) w)\<lparr>running := False\<rparr>"
  obtain bg where bg: "trace (finish ?w1) = trace ?w1 @ bg" "list_all by_bg bg"
    using finish_trace by blast
  have dead: "\<not> thread_alive (finish ?w1)"
    by (rule finish_dead) simp
  show ?thesis
    using bg dead
    by (cases "fm = []") (auto simp: stop_running [OF assms] thread_alive_def)
qed

section \<open>Stopping a running Spinner\<close>

text \<open>
  Claim C4. For every running Spinner, \<open>stop()\<close> sets \<open>running\<close> to false and waits, in a join
  without timeout, until the animation thread has seen the flag and left its loop, before it
  clears the line or prints the final line. In the trace, whatever the animation thread still
  emits (\<open>bg\<close>) comes after the call and before the caller's clearing write, so the thread's
  writes do not interleave with the final status line; when \<open>stop()\<close> has returned the
  thread has exited, and however often the scheduler turns to it afterwards nothing changes
  any more: no frame is written after \<open>stop()\<close> returns.
\<close>

theorem stop_joins_before_output:
  assumes "running w"
  shows "\<exists>w' bg. stop fm sy scol w = Some w' \<and> \<not> running w' \<and> \<not> thread_alive w'
           \<and> list_all by_bg bg
           \<and> trace w' = trace w @ Call (Stop fm sy scol) # bg
                @ Write Fg (clear_line (message w))
                # (if fm \<noteq> [] then [Print (final_line scol sy fm)] else []) @ [Flush Fg]
           \<and> (\<forall>n. (animate_step ^^ n) w' = w')"
proof -
  obtain w' bg where *: "stop fm sy scol w = Some w'" "\<not> running w'" "\<not> thread_alive w'"
    "list_all by_bg bg"
    "trace w' = trace w @ Call (Stop fm sy scol) # bg
                @ Write Fg (clear_line (message w))
                # (if fm \<noteq> [] then [Print (final_line scol sy fm)] else []) @ [Flush Fg]"
    using stop_running_trace [OF assms] by blast
  have "\<forall>n. (animate_step ^^ n) w' = w'"
    using *(3) by (simp add: dead_steps)
  with * show ?thesis by blast
qed

theorem stop_joins_before_output_witness:
  "running working_spinner \<and>
   (\<exists>w' bg. stop (ascii ''Done'') CHECK GREEN working_spinner = Some w'
      \<and> \<not> running w' \<and> \<not> thread_alive w' \<and> list_all by_bg bg
      \<and> trace w' = trace working_spinner @ Call (Stop (ascii ''Done'') CHECK GREEN) # bg
           @ Write Fg (clear_line (message working_spinner))
           # (if ascii ''Done'' \<noteq> [] then [Print (final_line GREEN CHECK (ascii ''Done''))] else [])
           @ [Flush Fg]
      \<and> (\<forall>n. (animate_step ^^ n) w' = w'))"
proof -
  have r: "running working_spinner"
    by (simp add: working_spinner_def start_def Spinner_init_def)
  show ?thesis
    using r stop_joins_before_output [OF r, of "ascii ''Done''" CHECK GREEN] by blast
qed

text \<open>
  Claim C6. For every running Spinner, \<open>stop(final_message, symbol, symbol_color)\<close> first
  clears the animation line by writing a carriage return, \<open>len(message) + 10\<close> spaces and
  another carriage return, and then prints the line
  \<open>symbol_color + symbol + ENDC + " " + final_message\<close>, ended by a newline, if and only if
  \<open>final_message\<close> is not empty; when it is empty nothing is printed after the clearing write.
  The instance is \<open>stop("Done", symbol="\<checkmark>")\<close> on \<open>Spinner("Working...")\<close>, whose final line
  reads check mark, space, \<open>Done\<close>.
\<close>

theorem stop_clears_then_prints:
  assumes "running w"
  shows "\<exists>w' bg. stop fm sy scol w = Some w' \<and> list_all by_bg bg
           \<and> console (trace w') = console (trace w) @ bg
                @ Write Fg (13 # replicate (length (message w) + 10) 32 @ [13])
                # (if fm \<noteq> [] then [Print (scol @ sy @ ENDC @ 32 # fm)] else []) @ [Flush Fg]
           \<and> stdout_text (trace w') = stdout_text (trace w) @ stdout_text bg
                @ 13 # replicate (length (message w) + 10) 32 @ [13]
                @ (if fm \<noteq> [] then scol @ sy @ ENDC @ 32 # fm @ [10] else [])"
proof -
  obtain w' bg where *: "stop fm sy scol w = Some w'" "list_all by_bg bg"
    "trace w' = trace w @ Call (Stop fm sy scol) # bg
                @ Write Fg (clear_line (message w))
                # (if fm \<noteq> [] then [Print (final_line scol sy fm)] else []) @ [Flush Fg]"
    using stop_running_trace [OF assms] by blast
  have "console (trace w') = console (trace w) @ bg
                @ Write Fg (13 # replicate (length (message w) + 10) 32 @ [13])
                # (if fm \<noteq> [] then [Print (scol @ sy @ ENDC @ 32 # fm)] else []) @ [Flush Fg]"
    using * by (simp add: by_bg_console clear_line_def final_line_def)
  moreover have "stdout_text (trace w') = stdout_text (trace w) @ stdout_text bg
                @ 13 # replicate (length (message w) + 10) 32 @ [13]
                @ (if fm \<noteq> [] then scol @ sy @ ENDC @ 32 # fm @ [10] else [])"
    using * by (simp add: clear_line_def final_line_def)
  ultimately show ?thesis
    using * by blast
qed

theorem stop_clears_then_prints_witness:
  "running working_spinner \<and>
   (\<exists>w' bg. stop (ascii ''Done'') CHECK GREEN working_spinner = Some w' \<and> list_all by_bg bg
      \<and> console (trace w') = console (trace working_spinner) @ bg
           @ Write Fg (13 # replicate (length (ascii ''Working...'') + 10) 32 @ [13])
           # [Print (GREEN @ CHECK @ ENDC @ 32 # ascii ''Done'')] @ [Flush Fg]
      \<and> stdout_text (trace w') = stdout_text (trace working_spinner) @ stdout_text bg
           @ 13 # replicate (length (ascii ''Working...'') + 10) 32 @ [13]
           @ GREEN @ CHECK @ ENDC @ 32 # ascii ''Done'' @ [10])"
proof -
  have r: "running working_spinner"
    by (simp add: working_spinner_def start_def Spinner_init_def)
  have m: "message working_spinner = ascii ''Working...''"
    by (simp add: working_spinner_def start_def Spinner_init_def)
  have d: "ascii ''Done'' \<noteq> []"
    by (simp add: ascii_def)
  show ?thesis
    using r stop_clears_then_prints [OF r, of "ascii ''Done''" CHECK GREEN]
    unfolding m using d by simp
qed

section \<open>Misuse\<close>

text \<open>
  Claim C5. Misuse calls are silent no-ops guarded by the \<open>running\<close> flag. \<open>start()\<close> on a
  running Spinner leaves every attribute as it was (no second thread is created) and writes
  nothing; \<open>stop()\<close> on a Spinner that is not running, and so also a second \<open>stop()\<close> after a
  first one has returned, leaves every attribute as it was, writes nothing and returns. The
  only difference between the states is the entry by which the trace records the call.
\<close>

theorem misuse_calls_are_no_ops:
  "(running w \<longrightarrow>
      start w = emit (Call Start) w \<and> console (trace (start w)) = console (trace w))
   \<and> (\<not> running w \<longrightarrow>
      stop fm sy scol w = Some (emit (Call (Stop fm sy scol)) w)
      \<and> console (trace (emit (Call (Stop fm sy scol)) w)) = console (trace w))
   \<and> (running w \<longrightarrow>
      (\<exists>w'. stop fm sy scol w = Some w'
         \<and> stop fm' sy' scol' w' = Some (emit (Call (Stop fm' sy' scol')) w')
         \<and> console (trace (emit (Call (Stop fm' sy' scol')) w')) = console (trace w')))"
proof (intro conjI impI)
  assume "running w"
  then show "start w = emit (Call Start) w"
    by (simp add: start_def Let_def)
  then show "console (trace (start w)) = console (trace w)"
    by simp
next
  assume "\<not> running w"
  then show "stop fm sy scol w = Some (emit (Call (Stop fm sy scol)) w)"
    by (rule stop_not_running)
  show "console (trace (emit (Call (Stop fm sy scol)) w)) = console (trace w)"
    by simp
next
  assume "running w"
  then obtain w' where w': "stop fm sy scol w = Some w'" "\<not> running w'"
    using stop_running_trace by blast
  then show "\<exists>w'. stop fm sy scol w = Some w'
         \<and> stop fm' sy' scol' w' = Some (emit (Call (Stop fm' sy' scol')) w')
         \<and> console (trace (emit (Call (Stop fm' sy' scol')) w')) = console (trace w')"
    by (simp add: stop_not_running)
qed

theorem misuse_calls_are_no_ops_witness:
  "running working_spinner
   \<and> start working_spinner = emit (Call Start) working_spinner
   \<and> console (trace (start working_spinner)) = console (trace working_spinner)
   \<and> \<not> running (Spinner_init (ascii ''Working...'') CYAN)
   \<and> stop (ascii ''Done'') CHECK GREEN (Spinner_init (ascii ''Working...'') CYAN)
       = Some (emit (Call (Stop (ascii ''Done'') CHECK GREEN)) (Spinner_init (ascii ''Working...'') CYAN))
   \<and> console (trace (emit (Call (Stop (ascii ''Done'') CHECK GREEN)) (Spinner_init (ascii ''Working...'') CYAN)))
       = console (trace (Spinner_init (ascii ''Working...'') CYAN))
   \<and> (\<exists>w'. stop (ascii ''Done'') CHECK GREEN working_spinner = Some w'
         \<and> stop (ascii ''Again'') CROSS RED w' = Some (emit (Call (Stop (ascii ''Again'') CROSS RED)) w')
         \<and> console (trace (emit (Call (Stop (ascii ''Again'') CROSS RED)) w')) = console (trace w'))"
proof -
  have r: "running working_spinner"
    by (simp add: working_spinner_def start_def Spinner_init_def)
  have n: "\<not> running (Spinner_init (ascii ''Working...'') CYAN)"
    by (simp add: Spinner_init_def)
  show ?thesis
    using r n
      misuse_calls_are_no_ops [of working_spinner "ascii ''Done''" CHECK GREEN "ascii ''Again''" CROSS RED]
      misuse_calls_are_no_ops [of "Spinner_init (ascii ''Working...'') CYAN" "ascii ''Done''" CHECK GREEN]
    by blast
qed

section \<open>Facts about an activation of the Progress Scope\<close>

lemma update_message_fields [simp]:
  "message (update_message m w) = m"
  "color (update_message m w) = color w"
  "running (update_message m w) = running w"
  "thread (update_message m w) = thread w"
  "trace (update_message m w) = trace w @ [Call (UpdateMessage m)]"
  by (simp_all add: update_message_def)

lemma run_work_fields [simp]:
  "color (run_work acts w) = color w"
  "running (run_work acts w) = running w"
  by (induction acts w rule: run_work.induct) simp_all

lemma run_work_message: "message (run_work acts w) = last (message w # updates acts)"
  by (induction acts w rule: run_work.induct) simp_all

lemma animate_step_calls [simp]: "calls (trace (animate_step w)) = calls (trace w)"
proof -
  obtain es where "trace (animate_step w) = trace w @ es" "list_all by_bg es"
    using animate_step_trace by blast
  then show ?thesis by (simp add: by_bg_calls)
qed

lemma run_work_calls:
  "calls (trace (run_work acts w)) = calls (trace w) @ map UpdateMessage (updates acts)"
  by (induction acts w rule: run_work.induct) simp_all

lemma run_work_idle: "run_work (replicate n Bg_step) w = (animate_step ^^ n) w"
  by (induction n arbitrary: w) (simp_all add: funpow_swap1)

lemma start_init [simp]:
  "running (start (Spinner_init msg col))"
  "message (start (Spinner_init msg col)) = msg"
  "color (start (Spinner_init msg col)) = col"
  "trace (start (Spinner_init msg col)) = [Call Start]"
  "thread (start (Spinner_init msg col)) = Some \<lparr>pc = At_idx0, idx = 0, frame = [], built = []\<rparr>"
  by (simp_all add: start_def Spinner_init_def Let_def emit_def)

lemma stop_after_work:
  "\<exists>w' bg. stop fm sy scol (run_work acts (start (Spinner_init msg col))) = Some w'
     \<and> \<not> running w' \<and> \<not> thread_alive w' \<and> list_all by_bg bg
     \<and> trace w' = trace (run_work acts (start (Spinner_init msg col)))
          @ Call (Stop fm sy scol) # bg
          @ Write Fg (clear_line (last (msg # updates acts)))
          # (if fm \<noteq> [] then [Print (final_line scol sy fm)] else []) @ [Flush Fg]"
proof -
  let ?w = "run_work acts (start (Spinner_init msg col))"
  have r: "running ?w" by simp
  have m: "message ?w = last (msg # updates acts)"
    by (simp add: run_work_message)
  show ?thesis
    using stop_running_trace [OF r, of fm sy scol] unfolding m by blast
qed

lemma failure_msg_returns: "py_str e = Inr d \<Longrightarrow> failure_msg e = Inr (ascii ''Failed: '' @ d)"
  by (simp add: failure_msg_def)

lemma failure_msg_raises: "py_str e = Inl e' \<Longrightarrow> failure_msg e = Inl e'"
  by (simp add: failure_msg_def)

lemma failure_text_nonempty [simp]: "ascii ''Failed: '' \<noteq> []"
  by (simp add: ascii_def)

lemma ui_exit [simp]:
  "self\<lparr>current_spinner := Some Active_spinner, current_spinner := None\<rparr> = \<lparr>current_spinner = None\<rparr>"
  by simp

lemma progress_Raise:
  "isinstance_Exception e \<Longrightarrow> py_str e = Inr d \<Longrightarrow>
   progress self msg succ (acts, Raise e) =
     map_option (\<lambda>w. (\<lparr>current_spinner = None\<rparr>, w, Raise e))
       (stop (ascii ''Failed: '' @ d) CROSS RED (run_work acts (start (Spinner_init msg CYAN))))"
  by (cases "stop (ascii ''Failed: '' @ d) CROSS RED (run_work acts (start (Spinner_init msg CYAN)))")
     (simp_all add: progress_def Let_def failure_msg_returns)

lemma progress_str_raises:
  "isinstance_Exception e \<Longrightarrow> py_str e = Inl e' \<Longrightarrow>
   progress self msg succ (acts, Raise e) =
     Some (\<lparr>current_spinner = None\<rparr>, run_work acts (start (Spinner_init msg CYAN)),
       Raise (generator_raises e'))"
  by (simp add: progress_def Let_def failure_msg_raises)

lemma progress_Return:
  "progress self msg succ (acts, Return v) =
     map_option (\<lambda>w. (\<lparr>current_spinner = None\<rparr>, w, Return v))
       (stop (success_msg msg succ) CHECK GREEN (run_work acts (start (Spinner_init msg CYAN))))"
  by (cases "stop (success_msg msg succ) CHECK GREEN (run_work acts (start (Spinner_init msg CYAN)))")
     (simp_all add: progress_def Let_def)

lemma progress_escape:
  "\<not> isinstance_Exception e \<Longrightarrow>
   progress self msg succ (acts, Raise e) =
     Some (\<lparr>current_spinner = None\<rparr>, run_work acts (start (Spinner_init msg CYAN)), Raise e)"
  by (simp add: progress_def Let_def)

lemma show_progress_Raise:
  "func args = (n, Raise e) \<Longrightarrow> isinstance_Exception e \<Longrightarrow> py_str e = Inr d \<Longrightarrow>
   show_progress msg succ func args =
     map_option (\<lambda>w. (w, Raise e))
       (stop (ascii ''Failed: '' @ d) CROSS RED (run_work (replicate n Bg_step) (start (Spinner_init msg CYAN))))"
  by (cases "stop (ascii ''Failed: '' @ d) CROSS RED ((animate_step ^^ n) (start (Spinner_init msg CYAN)))")
     (simp_all add: show_progress_def Let_def run_work_idle failure_msg_returns)

lemma show_progress_str_raises:
  "func args = (n, Raise e) \<Longrightarrow> isinstance_Exception e \<Longrightarrow> py_str e = Inl e' \<Longrightarrow>
   show_progress msg succ func args =
     Some (run_work (replicate n Bg_step) (start (Spinner_init msg CYAN)), Raise e')"
  by (simp add: show_progress_def Let_def run_work_idle failure_msg_raises)

lemma show_progress_Return:
  "func args = (n, Return v) \<Longrightarrow>
   show_progress msg succ func args =
     map_option (\<lambda>w. (w, Return v))
       (stop (success_msg msg succ) CHECK GREEN (run_work (replicate n Bg_step) (start (Spinner_init msg CYAN))))"
  by (cases "stop (success_msg msg succ) CHECK GREEN ((animate_step ^^ n) (start (Spinner_init msg CYAN)))")
     (simp_all add: show_progress_def Let_def run_work_idle)

lemma show_progress_escape:
  "func args = (n, Raise e) \<Longrightarrow> \<not> isinstance_Exception e \<Longrightarrow>
   show_progress msg succ func args =
     Some (run_work (replicate n Bg_step) (start (Spinner_init msg CYAN)), Raise e)"
  by (simp add: show_progress_def Let_def run_work_idle)

lemma updates_idle [simp]: "updates (replicate n Bg_step) = []"
  by (induction n) simp_all



lemma stop_keeps_construction:
  assumes "stop fm sy scol w = Some w'"
  shows "color w' = color w" and "message w' = message w"
proof -
  have "color w' = color w \<and> message w' = message w"
  proof (cases "running w")
    case True
    then obtain v where "stop fm sy scol w = Some v" "message v = message w" "color v = color w"
      using stop_running_trace by blast
    then show ?thesis
      using assms by simp
  next
    case False
    then show ?thesis
      using assms by (auto simp: stop_not_running)
  qed
  then show "color w' = color w" and "message w' = message w"
    by simp_all
qed


section \<open>The exits of the Progress Scope\<close>

text \<open>
  What the failure exit does when \<open>str(e)\<close> returns: for an error \<open>e\<close> (an exception that
  \<open>except Exception as e\<close> matches) whose \<open>str(e)\<close> is \<open>d\<close>, both forms stop the Spinner with the
  text \<open>"Failed: " + d\<close>, the cross glyph and the red colour, print that line, and raise \<open>e\<close>.
\<close>

lemma printable_failure_is_reported_and_reraised:
  assumes "isinstance_Exception e" and "py_str e = Inr d" and "func args = (n, Raise e)"
  shows "(\<exists>w' bg. progress self msg succ (acts, Raise e) = Some (\<lparr>current_spinner = None\<rparr>, w', Raise e)
            \<and> \<not> running w' \<and> \<not> thread_alive w' \<and> list_all by_bg bg
            \<and> trace w' = trace (run_work acts (start (Spinner_init msg CYAN)))
                 @ Call (Stop (ascii ''Failed: '' @ d) CROSS RED) # bg
                 @ [Write Fg (clear_line (last (msg # updates acts))),
                    Print (RED @ CROSS @ ENDC @ 32 # ascii ''Failed: '' @ d),
                    Flush Fg])
       \<and> (\<exists>w' bg. show_progress msg succ func args = Some (w', Raise e)
            \<and> \<not> running w' \<and> \<not> thread_alive w' \<and> list_all by_bg bg
            \<and> trace w' = trace ((animate_step ^^ n) (start (Spinner_init msg CYAN)))
                 @ Call (Stop (ascii ''Failed: '' @ d) CROSS RED) # bg
                 @ [Write Fg (clear_line msg),
                    Print (RED @ CROSS @ ENDC @ 32 # ascii ''Failed: '' @ d),
                    Flush Fg])"
proof
  obtain w' bg where "stop (ascii ''Failed: '' @ d) CROSS RED (run_work acts (start (Spinner_init msg CYAN))) = Some w'"
    "\<not> running w'" "\<not> thread_alive w'" "list_all by_bg bg"
    "trace w' = trace (run_work acts (start (Spinner_init msg CYAN)))
          @ Call (Stop (ascii ''Failed: '' @ d) CROSS RED) # bg
          @ Write Fg (clear_line (last (msg # updates acts)))
          # (if ascii ''Failed: '' @ d \<noteq> [] then [Print (final_line RED CROSS (ascii ''Failed: '' @ d))] else [])
          @ [Flush Fg]"
    using stop_after_work by blast
  then show "\<exists>w' bg. progress self msg succ (acts, Raise e) = Some (\<lparr>current_spinner = None\<rparr>, w', Raise e)
            \<and> \<not> running w' \<and> \<not> thread_alive w' \<and> list_all by_bg bg
            \<and> trace w' = trace (run_work acts (start (Spinner_init msg CYAN)))
                 @ Call (Stop (ascii ''Failed: '' @ d) CROSS RED) # bg
                 @ [Write Fg (clear_line (last (msg # updates acts))),
                    Print (RED @ CROSS @ ENDC @ 32 # ascii ''Failed: '' @ d),
                    Flush Fg]"
    using assms(1,2) by (simp add: progress_Raise final_line_def)
next
  obtain w' bg where "stop (ascii ''Failed: '' @ d) CROSS RED (run_work (replicate n Bg_step) (start (Spinner_init msg CYAN))) = Some w'"
    "\<not> running w'" "\<not> thread_alive w'" "list_all by_bg bg"
    "trace w' = trace (run_work (replicate n Bg_step) (start (Spinner_init msg CYAN)))
          @ Call (Stop (ascii ''Failed: '' @ d) CROSS RED) # bg
          @ Write Fg (clear_line (last (msg # updates (replicate n Bg_step))))
          # (if ascii ''Failed: '' @ d \<noteq> [] then [Print (final_line RED CROSS (ascii ''Failed: '' @ d))] else [])
          @ [Flush Fg]"
    using stop_after_work by blast
  then show "\<exists>w' bg. show_progress msg succ func args = Some (w', Raise e)
            \<and> \<not> running w' \<and> \<not> thread_alive w' \<and> list_all by_bg bg
            \<and> trace w' = trace ((animate_step ^^ n) (start (Spinner_init msg CYAN)))
                 @ Call (Stop (ascii ''Failed: '' @ d) CROSS RED) # bg
                 @ [Write Fg (clear_line msg),
                    Print (RED @ CROSS @ ENDC @ 32 # ascii ''Failed: '' @ d),
                    Flush Fg]"
    using assms
    by (simp add: show_progress_Raise [where func = func and args = args] final_line_def run_work_idle)
qed

text \<open>
  Claim C1 says that for every enclosed unit of work that raises an error, the scope stops
  its Spinner with the completion text \<open>"Failed: "\<close> and the error's description, the cross
  glyph and the red colour, and then raises the very same error again, never swallowing or
  replacing it. The code does not do so for an error whose \<open>__str__\<close> raises: the handler
  evaluates \<open>str(e)\<close> before it enters \<open>stop\<close>, so the exception of \<open>__str__\<close> leaves the
  handler, \<open>stop\<close> and the \<open>raise\<close> are not reached, the only call recorded is the \<open>start()\<close>, the
  Spinner is still running when the scope is left, and the caller receives the exception of
  \<open>__str__\<close> (from the context manager, as the generator raises it) in place of the error the
  work raised. It is so in the context manager and in the decorator.
\<close>

theorem failure_exit_lost_when_str_raises:
  "isinstance_Exception (Unprintable Exception (Exn Exception (ascii ''no text'')))
   \<and> snd (unprintable_task ()) = Raise (Unprintable Exception (Exn Exception (ascii ''no text'')))
   \<and> map_option (snd \<circ> snd)
        (progress \<lparr>current_spinner = None\<rparr> (ascii ''Loading...'') []
           ([Bg_step, Bg_step], snd (unprintable_task ())))
      = Some (Raise (Exn Exception (ascii ''no text'')))
   \<and> map_option (calls \<circ> trace \<circ> fst \<circ> snd)
        (progress \<lparr>current_spinner = None\<rparr> (ascii ''Loading...'') []
           ([Bg_step, Bg_step], snd (unprintable_task ())))
      = Some [Start]
   \<and> map_option (running \<circ> fst \<circ> snd)
        (progress \<lparr>current_spinner = None\<rparr> (ascii ''Loading...'') []
           ([Bg_step, Bg_step], snd (unprintable_task ())))
      = Some True
   \<and> map_option (console \<circ> trace \<circ> fst \<circ> snd)
        (progress \<lparr>current_spinner = None\<rparr> (ascii ''Loading...'') []
           ([Bg_step, Bg_step], snd (unprintable_task ())))
      = Some []
   \<and> map_option snd (show_progress (ascii ''Loading...'') [] unprintable_task ())
      = Some (Raise (Exn Exception (ascii ''no text'')))
   \<and> map_option (calls \<circ> trace \<circ> fst) (show_progress (ascii ''Loading...'') [] unprintable_task ())
      = Some [Start]
   \<and> map_option (running \<circ> fst) (show_progress (ascii ''Loading...'') [] unprintable_task ())
      = Some True"
  by (simp add: unprintable_task_def isinstance_Exception_def generator_raises_def
      progress_str_raises show_progress_str_raises [where n = 2] run_work_calls
      animate_step_def)

lemma str_replace_absent:
  assumes "old \<noteq> []" and "\<forall>i. take (length old) (drop i s) \<noteq> old"
  shows "str_replace old new s = s"
  using assms(2)
proof (induction s)
  case Nil
  then show ?case using assms(1) by simp
next
  case (Cons c cs)
  have "take (length old) (c # cs) \<noteq> old"
    using Cons.prems [rule_format, of 0] by simp
  moreover have "\<forall>i. take (length old) (drop i cs) \<noteq> old"
  proof
    fix i
    show "take (length old) (drop i cs) \<noteq> old"
      using Cons.prems [rule_format, of "Suc i"] by simp
  qed
  ultimately show ?case
    using assms(1) Cons.IH by simp
qed

lemma dots_length: "length (ascii ''...'') = 3" "ascii ''...'' \<noteq> []"
  by (simp_all add: ascii_def)

lemma no_dot_no_dots:
  assumes "46 \<notin> set s"
  shows "\<forall>i. take 3 (drop i s) \<noteq> ascii ''...''"
proof (intro allI notI)
  fix i
  assume "take 3 (drop i s) = ascii ''...''"
  then have "46 \<in> set (take 3 (drop i s))"
    by (simp add: ascii_def)
  then have "46 \<in> set s"
    using set_take_subset set_drop_subset by fast
  with assms show False by simp
qed

text \<open>
  Claim C3. When the enclosed work returns without error, the completion text passed to
  \<open>Spinner.stop\<close>, with the check mark and the green colour, is \<open>success_message\<close> when that is
  not empty, and otherwise \<open>message\<close> with \<open>"..."\<close> replaced by a space and the check mark
  (Python's \<open>str.replace\<close>), which is \<open>message\<close> itself when \<open>"..."\<close> does not occur in it.
  \<open>"Loading..."\<close> gives \<open>"Loading \<checkmark>"\<close> and \<open>"Loading data"\<close> stays as it is.
\<close>

theorem success_completion_text:
  assumes "func args = (n, Return v)"
  shows "(\<exists>w' bg. progress self msg succ (acts, Return r) = Some (\<lparr>current_spinner = None\<rparr>, w', Return r)
            \<and> list_all by_bg bg
            \<and> trace w' = trace (run_work acts (start (Spinner_init msg CYAN)))
                 @ Call (Stop (success_msg msg succ) CHECK GREEN) # bg
                 @ Write Fg (clear_line (last (msg # updates acts)))
                 # (if success_msg msg succ \<noteq> []
                    then [Print (GREEN @ CHECK @ ENDC @ 32 # success_msg msg succ)] else [])
                 @ [Flush Fg])
       \<and> (\<exists>w' bg. show_progress msg succ func args = Some (w', Return v)
            \<and> list_all by_bg bg
            \<and> trace w' = trace ((animate_step ^^ n) (start (Spinner_init msg CYAN)))
                 @ Call (Stop (success_msg msg succ) CHECK GREEN) # bg
                 @ Write Fg (clear_line msg)
                 # (if success_msg msg succ \<noteq> []
                    then [Print (GREEN @ CHECK @ ENDC @ 32 # success_msg msg succ)] else [])
                 @ [Flush Fg])
       \<and> success_msg msg succ
            = (if succ \<noteq> [] then succ else str_replace (ascii ''...'') (32 # CHECK) msg)
       \<and> ((\<forall>i. take 3 (drop i msg) \<noteq> ascii ''...'') \<longrightarrow> success_msg msg [] = msg)
       \<and> success_msg (ascii ''Loading...'') [] = ascii ''Loading'' @ 32 # CHECK
       \<and> success_msg (ascii ''Loading data'') [] = ascii ''Loading data''"
proof (intro conjI impI)
  obtain w' bg where "stop (success_msg msg succ) CHECK GREEN (run_work acts (start (Spinner_init msg CYAN))) = Some w'"
    "list_all by_bg bg"
    "trace w' = trace (run_work acts (start (Spinner_init msg CYAN)))
          @ Call (Stop (success_msg msg succ) CHECK GREEN) # bg
          @ Write Fg (clear_line (last (msg # updates acts)))
          # (if success_msg msg succ \<noteq> [] then [Print (final_line GREEN CHECK (success_msg msg succ))] else [])
          @ [Flush Fg]"
    using stop_after_work by blast
  then show "\<exists>w' bg. progress self msg succ (acts, Return r) = Some (\<lparr>current_spinner = None\<rparr>, w', Return r)
            \<and> list_all by_bg bg
            \<and> trace w' = trace (run_work acts (start (Spinner_init msg CYAN)))
                 @ Call (Stop (success_msg msg succ) CHECK GREEN) # bg
                 @ Write Fg (clear_line (last (msg # updates acts)))
                 # (if success_msg msg succ \<noteq> []
                    then [Print (GREEN @ CHECK @ ENDC @ 32 # success_msg msg succ)] else [])
                 @ [Flush Fg]"
    by (simp add: progress_Return final_line_def)
next
  obtain w' bg where "stop (success_msg msg succ) CHECK GREEN (run_work (replicate n Bg_step) (start (Spinner_init msg CYAN))) = Some w'"
    "list_all by_bg bg"
    "trace w' = trace (run_work (replicate n Bg_step) (start (Spinner_init msg CYAN)))
          @ Call (Stop (success_msg msg succ) CHECK GREEN) # bg
          @ Write Fg (clear_line (last (msg # updates (replicate n Bg_step))))
          # (if success_msg msg succ \<noteq> [] then [Print (final_line GREEN CHECK (success_msg msg succ))] else [])
          @ [Flush Fg]"
    using stop_after_work by blast
  then show "\<exists>w' bg. show_progress msg succ func args = Some (w', Return v)
            \<and> list_all by_bg bg
            \<and> trace w' = trace ((animate_step ^^ n) (start (Spinner_init msg CYAN)))
                 @ Call (Stop (success_msg msg succ) CHECK GREEN) # bg
                 @ Write Fg (clear_line msg)
                 # (if success_msg msg succ \<noteq> []
                    then [Print (GREEN @ CHECK @ ENDC @ 32 # success_msg msg succ)] else [])
                 @ [Flush Fg]"
    using assms by (simp add: show_progress_Return final_line_def run_work_idle)
next
  show "success_msg msg succ
            = (if succ \<noteq> [] then succ else str_replace (ascii ''...'') (32 # CHECK) msg)"
    by (simp add: success_msg_def)
next
  assume "\<forall>i. take 3 (drop i msg) \<noteq> ascii ''...''"
  then show "success_msg msg [] = msg"
    by (simp add: success_msg_def str_replace_absent dots_length)
next
  show "success_msg (ascii ''Loading...'') [] = ascii ''Loading'' @ 32 # CHECK"
    by (simp add: success_msg_def ascii_def CHECK_def)
next
  show "success_msg (ascii ''Loading data'') [] = ascii ''Loading data''"
    by (simp add: success_msg_def ascii_def CHECK_def)
qed

theorem success_completion_text_witness:
  "(\<lambda>u::unit. (2::nat, Return ())) () = (2, Return ())
   \<and> (\<forall>i. take 3 (drop i (ascii ''Loading data'')) \<noteq> ascii ''...'')
   \<and> success_msg (ascii ''Loading data'') [] = ascii ''Loading data''
   \<and> (\<exists>w' bg. progress \<lparr>current_spinner = None\<rparr> (ascii ''Loading data'') []
                 ([Bg_step, Bg_step], Return ())
               = Some (\<lparr>current_spinner = None\<rparr>, w', Return ())
            \<and> list_all by_bg bg
            \<and> trace w' = trace (run_work [Bg_step, Bg_step] (start (Spinner_init (ascii ''Loading data'') CYAN)))
                 @ Call (Stop (ascii ''Loading data'') CHECK GREEN) # bg
                 @ [Write Fg (clear_line (ascii ''Loading data'')),
                    Print (GREEN @ CHECK @ ENDC @ 32 # ascii ''Loading data''),
                    Flush Fg])
   \<and> (\<exists>w' bg. show_progress (ascii ''Loading data'') [] (\<lambda>u::unit. (2::nat, Return ())) ()
               = Some (w', Return ())
            \<and> list_all by_bg bg
            \<and> trace w' = trace ((animate_step ^^ 2) (start (Spinner_init (ascii ''Loading data'') CYAN)))
                 @ Call (Stop (ascii ''Loading data'') CHECK GREEN) # bg
                 @ [Write Fg (clear_line (ascii ''Loading data'')),
                    Print (GREEN @ CHECK @ ENDC @ 32 # ascii ''Loading data''),
                    Flush Fg])"
proof -
  have d: "\<forall>i. take 3 (drop i (ascii ''Loading data'')) \<noteq> ascii ''...''"
    by (rule no_dot_no_dots) (simp add: ascii_def)
  note inst = success_completion_text [where func = "\<lambda>u::unit. (2::nat, Return ())" and args = "()"
      and n = 2 and v = "()" and r = "()" and self = "\<lparr>current_spinner = None\<rparr>"
      and msg = "ascii ''Loading data''" and succ = "[]" and acts = "[Bg_step, Bg_step]"]
  have s: "success_msg (ascii ''Loading data'') [] = ascii ''Loading data''"
    by (simp add: success_msg_def ascii_def CHECK_def)
  have n: "ascii ''Loading data'' \<noteq> []"
    by (simp add: ascii_def)
  show ?thesis
    using d inst unfolding s using n by simp
qed

text \<open>
  Claim C10. When the wrapped callable returns normally, the function that the decorator
  \<open>show_progress(message, success_message)\<close> puts in its place returns the value the callable
  returned, unchanged.
\<close>

theorem wrapper_returns_result:
  assumes "snd (func args) = Return v"
  shows "\<exists>w'. show_progress msg succ func args = Some (w', Return v)"
proof -
  have f: "func args = (fst (func args), Return v)"
    using assms by (simp add: prod_eq_iff)
  obtain w' where "stop (success_msg msg succ) CHECK GREEN
      (run_work (replicate (fst (func args)) Bg_step) (start (Spinner_init msg CYAN))) = Some w'"
    using stop_after_work by blast
  then show ?thesis
    by (simp add: show_progress_Return [where func = func and args = args, OF f])
qed

theorem wrapper_returns_result_witness:
  "snd ((\<lambda>x::int. (3::nat, Return (x + 1))) 41) = Return 42
   \<and> (\<exists>w'. show_progress (ascii ''Planning tasks...'') (ascii ''Tasks planned'')
              (\<lambda>x::int. (3::nat, Return (x + 1))) 41 = Some (w', Return 42))"
proof -
  have s: "snd ((\<lambda>x::int. (3::nat, Return (x + 1))) 41) = Return 42"
    by simp
  show ?thesis
    using s wrapper_returns_result [where func = "\<lambda>x::int. (3::nat, Return (x + 1))" and args = 41
        and v = 42 and msg = "ascii ''Planning tasks...''" and succ = "ascii ''Tasks planned''"]
    by simp
qed

section \<open>The two forms of the Progress Scope\<close>




section \<open>Start and stop, once each\<close>

lemma filter_updates [simp]:
  "filter is_start (map UpdateMessage us) = []"
  "filter is_stop (map UpdateMessage us) = []"
  by (induction us) simp_all

lemma stop_after_work_calls:
  "\<exists>w'. stop fm sy scol (run_work acts (start (Spinner_init msg col))) = Some w'
     \<and> \<not> running w'
     \<and> calls (trace w') = Start # map UpdateMessage (updates acts) @ [Stop fm sy scol]"
proof -
  obtain w' bg where "stop fm sy scol (run_work acts (start (Spinner_init msg col))) = Some w'"
    "\<not> running w'" "list_all by_bg bg"
    "trace w' = trace (run_work acts (start (Spinner_init msg col)))
          @ Call (Stop fm sy scol) # bg
          @ Write Fg (clear_line (last (msg # updates acts)))
          # (if fm \<noteq> [] then [Print (final_line scol sy fm)] else []) @ [Flush Fg]"
    using stop_after_work by blast
  then show ?thesis
    by (simp add: run_work_calls by_bg_calls)
qed

text \<open>
  Where the pairing holds: when the enclosed work returns normally, or raises an error whose
  \<open>str(e)\<close> returns, \<open>start()\<close> is invoked once, at entry, and \<open>stop()\<close> once, at exit, by the
  success exit after a return and by the failure exit after an error, with only the calls of
  \<open>update_message\<close> between them, and the Spinner is not running afterwards.
\<close>

lemma start_once_and_stop_once_if_handled:
  assumes "handled oc"
  shows "\<exists>w' fm sy scol.
            progress self msg succ (acts, oc) = Some (\<lparr>current_spinner = None\<rparr>, w', oc)
          \<and> calls (trace w') = Start # map UpdateMessage (updates acts) @ [Stop fm sy scol]
          \<and> (case oc of
                Return v \<Rightarrow> fm = success_msg msg succ \<and> sy = CHECK \<and> scol = GREEN
              | Raise e \<Rightarrow> failure_msg e = Inr fm \<and> sy = CROSS \<and> scol = RED)
          \<and> length (filter is_start (calls (trace w'))) = 1
          \<and> length (filter is_stop (calls (trace w'))) = 1
          \<and> \<not> running w'"
proof (cases oc)
  case (Return v)
  obtain w1 where w1: "stop (success_msg msg succ) CHECK GREEN (run_work acts (start (Spinner_init msg CYAN))) = Some w1"
    "\<not> running w1"
    "calls (trace w1) = Start # map UpdateMessage (updates acts) @ [Stop (success_msg msg succ) CHECK GREEN]"
    using stop_after_work_calls by blast
  have p: "progress self msg succ (acts, oc) = Some (\<lparr>current_spinner = None\<rparr>, w1, oc)"
    using Return w1 by (simp add: progress_Return)
  show ?thesis
    using Return p w1 by simp
next
  case (Raise e)
  then have e: "isinstance_Exception e" "\<not> isl (py_str e)"
    using assms by simp_all
  then obtain d where d: "py_str e = Inr d"
    by (cases "py_str e") simp_all
  obtain w1 where w1: "stop (ascii ''Failed: '' @ d) CROSS RED (run_work acts (start (Spinner_init msg CYAN))) = Some w1"
    "\<not> running w1"
    "calls (trace w1) = Start # map UpdateMessage (updates acts) @ [Stop (ascii ''Failed: '' @ d) CROSS RED]"
    using stop_after_work_calls by blast
  have p: "progress self msg succ (acts, oc) = Some (\<lparr>current_spinner = None\<rparr>, w1, oc)"
    using Raise e(1) d w1 by (simp add: progress_Raise)
  show ?thesis
    using Raise p w1 d by (simp add: failure_msg_returns)
qed

text \<open>
  Claim C2 says that for every Progress Scope activation, whether the enclosed work returns
  normally or raises, and for any number of \<open>update_message\<close> calls, \<open>Spinner.start()\<close> is
  invoked exactly once and \<open>Spinner.stop()\<close> exactly once. The code does not invoke \<open>stop()\<close>
  when the work is interrupted from the keyboard, which \<open>except Exception\<close> does not match,
  nor when it raises an error whose \<open>__str__\<close> raises: in the context manager and in the
  decorator, the calls recorded for the activation are the \<open>start()\<close> and the work's own
  \<open>update_message\<close>, there is no \<open>stop()\<close>, and the Spinner is still running when the scope is
  left.
\<close>

theorem stop_skipped_when_interrupted:
  "map_option (calls \<circ> trace \<circ> fst \<circ> snd)
     (progress \<lparr>current_spinner = None\<rparr> (ascii ''Loading...'') []
        ([Bg_step, Update (ascii ''Saving...''), Bg_step], snd (interrupted_task ())))
     = Some [Start, UpdateMessage (ascii ''Saving...'')]
   \<and> map_option (length \<circ> filter is_stop \<circ> calls \<circ> trace \<circ> fst \<circ> snd)
     (progress \<lparr>current_spinner = None\<rparr> (ascii ''Loading...'') []
        ([Bg_step, Update (ascii ''Saving...''), Bg_step], snd (interrupted_task ())))
     = Some 0
   \<and> map_option (running \<circ> fst \<circ> snd)
     (progress \<lparr>current_spinner = None\<rparr> (ascii ''Loading...'') []
        ([Bg_step, Update (ascii ''Saving...''), Bg_step], snd (interrupted_task ())))
     = Some True
   \<and> map_option (calls \<circ> trace \<circ> fst)
     (show_progress (ascii ''Loading...'') [] interrupted_task ())
     = Some [Start]
   \<and> map_option (length \<circ> filter is_stop \<circ> calls \<circ> trace \<circ> fst)
     (show_progress (ascii ''Loading...'') [] interrupted_task ())
     = Some 0
   \<and> map_option (running \<circ> fst)
     (show_progress (ascii ''Loading...'') [] interrupted_task ())
     = Some True
   \<and> map_option (calls \<circ> trace \<circ> fst \<circ> snd)
     (progress \<lparr>current_spinner = None\<rparr> (ascii ''Loading...'') []
        ([Bg_step, Update (ascii ''Saving...''), Bg_step], snd (unprintable_task ())))
     = Some [Start, UpdateMessage (ascii ''Saving...'')]
   \<and> map_option (calls \<circ> trace \<circ> fst)
     (show_progress (ascii ''Loading...'') [] unprintable_task ())
     = Some [Start]"
  by (simp add: progress_escape show_progress_escape [where n = 2] isinstance_Exception_def
      progress_str_raises show_progress_str_raises [where n = 2]
      run_work_calls interrupted_task_def unprintable_task_def)

section \<open>The animation and the messages it shows\<close>

lemma accepts_append:
  "accepts col s (xs @ ys)
     = (case accepts col s xs of None \<Rightarrow> None | Some s' \<Rightarrow> accepts col s' ys)"
  by (induction xs arbitrary: s) (simp_all split: option.splits)

lemma accepts_snoc:
  "accepts col s tr = Some s' \<Longrightarrow> accepts col s (tr @ [e]) = observe col s' e"
  by (simp add: accepts_append split: option.splits)

lemma in_sync_start: "in_sync msg (start (Spinner_init msg col))"
  by (simp add: in_sync_def monitor0_def phase_at_def tick_at_def)

lemma in_sync_step:
  assumes "in_sync msg w"
  shows "in_sync msg (animate_step w)"
proof -
  obtain t s where t: "thread w = Some t"
    and acc: "accepts (color w) (monitor0 msg) (trace w) = Some s"
    using assms by (auto simp: in_sync_def split: option.splits)
  have inv: "phase s = phase_at (pc t)" "tick s = tick_at t" "shown s = message w"
    "seen s \<noteq> []" "hd (seen s) = message w"
    "pc t = At_format \<longrightarrow> frame t = FRAMES ! (idx t mod length FRAMES)"
    "pc t = At_write \<longrightarrow>
       list_ex (\<lambda>m. built t = frame_line (color w) (FRAMES ! (idx t mod length FRAMES)) m) (seen s)"
    using assms t acc by (simp_all add: in_sync_def)
  have here: "message w \<in> set (seen s)"
    using inv(4,5) by (cases "seen s") auto
  show ?thesis
  proof (cases "pc t")
    case At_format
    then show ?thesis
      using t acc inv here
      by (auto simp: in_sync_def animate_step_def phase_at_def tick_at_def list_ex_iff)
  next
    case At_write
    then show ?thesis
      using t inv accepts_snoc [OF acc]
      by (simp add: in_sync_def animate_step_def phase_at_def tick_at_def frame_line_def)
  next
    case At_flush
    then show ?thesis
      using t inv accepts_snoc [OF acc]
      by (simp add: in_sync_def animate_step_def phase_at_def tick_at_def)
  next
    case At_sleep
    then show ?thesis
      using t inv accepts_snoc [OF acc]
      by (simp add: in_sync_def animate_step_def phase_at_def tick_at_def)
  qed (use t acc inv in \<open>simp_all add: in_sync_def animate_step_def phase_at_def tick_at_def\<close>)
qed

lemma in_sync_steps: "in_sync msg w \<Longrightarrow> in_sync msg ((animate_step ^^ n) w)"
  by (induction n) (simp_all add: in_sync_step)

lemma in_sync_update: "in_sync msg w \<Longrightarrow> in_sync msg (update_message m w)"
  by (auto simp: in_sync_def accepts_append list_ex_iff split: option.splits)

lemma in_sync_emit:
  assumes "in_sync msg w" and "\<And>s. observe (color w) s e = Some s"
  shows "in_sync msg (emit e w)"
  using assms by (auto simp: in_sync_def accepts_append split: option.splits)

lemma in_sync_running: "in_sync msg w \<Longrightarrow> in_sync msg (w\<lparr>running := b\<rparr>)"
  by (auto simp: in_sync_def split: option.splits)

lemma in_sync_work: "in_sync msg w \<Longrightarrow> in_sync msg (run_work acts w)"
  by (induction acts w rule: run_work.induct) (simp_all add: in_sync_update in_sync_step)

lemma in_sync_stop:
  assumes "in_sync msg w" and "running w"
  shows "\<exists>w'. stop fm sy scol w = Some w' \<and> in_sync msg w'"
proof -
  let ?w1 = "finish ((emit (Call (Stop fm sy scol)) w)\<lparr>running := False\<rparr>)"
  have 1: "in_sync msg ?w1"
    unfolding finish_def
    by (intro in_sync_steps in_sync_running in_sync_emit assms) simp
  have 2: "in_sync msg (emit (Write Fg (clear_line (message w))) ?w1)"
    by (intro in_sync_emit 1) simp
  have 3: "in_sync msg ((if fm \<noteq> [] then emit (Print (final_line scol sy fm)) else id)
      (emit (Write Fg (clear_line (message w))) ?w1))"
    using 2 by (auto intro: in_sync_emit)
  have "in_sync msg (emit (Flush Fg) ((if fm \<noteq> [] then emit (Print (final_line scol sy fm)) else id)
      (emit (Write Fg (clear_line (message w))) ?w1)))"
    by (intro in_sync_emit 3) simp
  then show ?thesis
    by (simp add: stop_running [OF assms(2)])
qed

lemma in_sync_accepts:
  "in_sync msg w \<Longrightarrow>
     \<exists>s. accepts (color w) (monitor0 msg) (trace w) = Some s \<and> shown s = message w"
  by (auto simp: in_sync_def split: option.splits)

lemma one_tick:
  assumes "running w" and "thread w = Some t" and "pc t = At_while"
  shows "(animate_step ^^ 7) w
     = w\<lparr>thread := Some \<lparr>pc = At_while, idx = idx t + 1, frame = FRAMES ! (idx t mod length FRAMES),
                           built = frame_line (color w) (FRAMES ! (idx t mod length FRAMES)) (message w)\<rparr>,
         trace := trace w @ tick_events (color w) (message w) (idx t)\<rparr>"
  using assms
  by (cases t) (simp add: eval_nat_numeral animate_step_def emit_def tick_events_def frame_line_def)

lemma n_ticks:
  "(animate_step ^^ (1 + 7 * n)) (start (Spinner_init msg col))
     = \<lparr>message = msg, color = col, running = True,
        thread = Some \<lparr>pc = At_while, idx = n,
                        frame = (if n = 0 then [] else FRAMES ! ((n - 1) mod length FRAMES)),
                        built = (if n = 0 then []
                                 else frame_line col (FRAMES ! ((n - 1) mod length FRAMES)) msg)\<rparr>,
        trace = Call Start # concat (map (tick_events col msg) [0..<n])\<rparr>"
proof (induction n)
  case 0
  show ?case
    by (simp add: animate_step_def start_def Spinner_init_def emit_def)
next
  case (Suc n)
  define w where "w = (animate_step ^^ (1 + 7 * n)) (start (Spinner_init msg col))"
  have w: "w = \<lparr>message = msg, color = col, running = True,
        thread = Some \<lparr>pc = At_while, idx = n,
                        frame = (if n = 0 then [] else FRAMES ! ((n - 1) mod length FRAMES)),
                        built = (if n = 0 then []
                                 else frame_line col (FRAMES ! ((n - 1) mod length FRAMES)) msg)\<rparr>,
        trace = Call Start # concat (map (tick_events col msg) [0..<n])\<rparr>"
    unfolding w_def by (rule Suc.IH)
  have "1 + 7 * Suc n = 7 + (1 + 7 * n)"
    by simp
  then have "(animate_step ^^ (1 + 7 * Suc n)) (start (Spinner_init msg col)) = (animate_step ^^ 7) w"
    unfolding w_def by (simp only: funpow_add o_apply)
  also have "\<dots> = w\<lparr>thread := Some \<lparr>pc = At_while, idx = n + 1, frame = FRAMES ! (n mod length FRAMES),
                           built = frame_line (color w) (FRAMES ! (n mod length FRAMES)) (message w)\<rparr>,
         trace := trace w @ tick_events (color w) (message w) n\<rparr>"
    using one_tick [where w = w and t = "\<lparr>pc = At_while, idx = n,
                        frame = (if n = 0 then [] else FRAMES ! ((n - 1) mod length FRAMES)),
                        built = (if n = 0 then []
                                 else frame_line col (FRAMES ! ((n - 1) mod length FRAMES)) msg)\<rparr>"]
    by (simp add: w)
  finally show ?case
    by (simp add: w)
qed

lemma observe_Call:
  "observe col s (Call c)
     = Some (case c of UpdateMessage m \<Rightarrow> s\<lparr>shown := m, seen := m # seen s\<rparr> | _ \<Rightarrow> s)"
  by (cases c) simp_all

lemma rendered_Call:
  "rendered ms (Call c # es) = (case c of UpdateMessage m \<Rightarrow> rendered (m # ms) es | _ \<Rightarrow> rendered ms es)"
  by (cases c) simp_all

lemma settle_Call:
  "settle f (Call c # es) = (case c of UpdateMessage m \<Rightarrow> settle Dirty es | _ \<Rightarrow> settle f es)"
  by (cases c) simp_all

lemmas call_cases = observe_Call rendered_Call settle_Call

lemma accepts_rendered:
  "accepts col s tr = Some s' \<Longrightarrow> seen s \<noteq> [] \<Longrightarrow> hd (seen s) = shown s \<Longrightarrow>
   xms \<in> set (rendered (seen s) tr) \<Longrightarrow>
     \<exists>k. \<exists>m \<in> set (snd xms). fst xms = 13 # col @ FRAMES ! (k mod length FRAMES) @ ENDC @ 32 # m"
proof (induction tr arbitrary: s)
  case Nil
  then show ?case by simp
next
  case (Cons e es)
  show ?case
  proof (cases e)
    case (Call c)
    then show ?thesis
      using Cons.prems
        Cons.IH [of "case c of UpdateMessage m \<Rightarrow> s\<lparr>shown := m, seen := m # seen s\<rparr> | _ \<Rightarrow> s"]
      by (cases c) (simp_all add: call_cases)
  next
    case (Write a x)
    show ?thesis
    proof (cases a)
      case Fg
      then show ?thesis
        using Write Cons.prems Cons.IH [of s] by simp
    next
      case Bg
      then have ok: "phase s = Await_write"
        "list_ex (\<lambda>m. x = 13 # col @ FRAMES ! (tick s mod length FRAMES) @ ENDC @ 32 # m) (seen s)"
        "accepts col (s\<lparr>phase := Await_flush\<rparr>) es = Some s'"
        using Write Cons.prems(1) by (simp_all split: if_splits)
      from Cons.prems(4) Write Bg
      consider "xms = (x, seen s)" | "xms \<in> set (rendered (seen (s\<lparr>phase := Await_flush\<rparr>)) es)"
        by auto
      then show ?thesis
      proof cases
        case 1
        then show ?thesis
          using ok(2) by (auto simp: list_ex_iff)
      next
        case 2
        then show ?thesis
          using Cons.IH [OF ok(3)] Cons.prems(2,3) by simp
      qed
    qed
  next
    case (Print x)
    then show ?thesis
      using Cons.prems Cons.IH [of s] by simp
  next
    case (Flush a)
    then show ?thesis
      using Cons.prems Cons.IH [of "s\<lparr>phase := Await_sleep\<rparr>"] Cons.IH [of s]
      by (cases a) (simp_all split: if_splits)
  next
    case (Sleep d)
    have t1: "take 1 (seen s) = [shown s]"
      using Cons.prems(2,3) by (cases "seen s") simp_all
    show ?thesis
      using Sleep Cons.prems t1
        Cons.IH [of "s\<lparr>phase := Await_write, tick := tick s + 1, seen := [shown s]\<rparr>"]
      by (simp split: if_splits)
  qed
qed

lemma accepts_settled:
  "accepts col s tr = Some s' \<Longrightarrow> seen s \<noteq> [] \<Longrightarrow> hd (seen s) = shown s \<Longrightarrow>
   (f \<noteq> Dirty \<longrightarrow> seen s = [shown s]) \<Longrightarrow> settle f tr = Shown \<Longrightarrow>
     (rendered (seen s) tr \<noteq> [] \<and> snd (last (rendered (seen s) tr)) = [shown s'])
     \<or> (rendered (seen s) tr = [] \<and> f = Shown \<and> shown s' = shown s)"
proof (induction tr arbitrary: s f)
  case Nil
  then show ?case by simp
next
  case (Cons e es)
  show ?case
  proof (cases e)
    case (Call c)
    then show ?thesis
      using Cons.prems
        Cons.IH [of "case c of UpdateMessage m \<Rightarrow> s\<lparr>shown := m, seen := m # seen s\<rparr> | _ \<Rightarrow> s"
                    "case c of UpdateMessage m \<Rightarrow> Dirty | _ \<Rightarrow> f"]
      by (cases c) (simp_all add: call_cases)
  next
    case (Write a x)
    show ?thesis
    proof (cases a)
      case Fg
      then show ?thesis
        using Write Cons.prems Cons.IH [of s f] by simp
    next
      case Bg
      let ?f = "if f = Fresh then Shown else f"
      have ok: "accepts col (s\<lparr>phase := Await_flush\<rparr>) es = Some s'"
        "settle ?f es = Shown"
        using Write Bg Cons.prems by (simp_all split: if_splits)
      have pre: "?f \<noteq> Dirty \<longrightarrow> seen s = [shown s]"
        using Cons.prems(4) by auto
      have "(rendered (seen s) es \<noteq> [] \<and> snd (last (rendered (seen s) es)) = [shown s'])
          \<or> (rendered (seen s) es = [] \<and> ?f = Shown \<and> shown s' = shown s)"
        using Cons.IH [OF ok(1) _ _ _ ok(2)] Cons.prems(2,3) pre by simp
      then show ?thesis
        using Write Bg pre by auto
    qed
  next
    case (Print x)
    then show ?thesis
      using Cons.prems Cons.IH [of s f] by simp
  next
    case (Flush a)
    then show ?thesis
      using Cons.prems Cons.IH [of "s\<lparr>phase := Await_sleep\<rparr>" f] Cons.IH [of s f]
      by (cases a) (simp_all split: if_splits)
  next
    case (Sleep d)
    have t1: "take 1 (seen s) = [shown s]"
      using Cons.prems(2,3) by (cases "seen s") simp_all
    let ?s = "s\<lparr>phase := Await_write, tick := tick s + 1, seen := [shown s]\<rparr>"
    let ?f = "if f = Dirty then Fresh else f"
    have ok: "accepts col ?s es = Some s'" "settle ?f es = Shown"
      using Sleep Cons.prems by (simp_all split: if_splits)
    have "(rendered (seen ?s) es \<noteq> [] \<and> snd (last (rendered (seen ?s) es)) = [shown s'])
          \<or> (rendered (seen ?s) es = [] \<and> ?f = Shown \<and> shown s' = shown ?s)"
      by (rule Cons.IH [OF ok(1) _ _ _ ok(2)]) simp_all
    then show ?thesis
      using Sleep t1 by (auto split: if_splits)
  qed
qed

text \<open>
  Claim C7. For every tick \<open>n\<close>, counted from 0, of a running Spinner's animation loop, the
  write to the output stream is exactly \<open>"\r" + color + FRAMES[n mod len(FRAMES)] + ENDC +
  " " + message\<close>, with a carriage return and no newline; \<open>FRAMES\<close> is the fixed sequence of
  ten glyphs; successive ticks advance the index by one, and each write is followed by a flush
  and a sleep of 80 ms. First, whatever the enclosed work does (any interleaving of
  \<open>update_message\<close> calls with steps of the animation thread), the monitor accepts the trace:
  tick after tick, the thread's events are such a write, with the message that the thread
  read for it, a flush and the sleep. Second, in closed form: with the message left alone,
  after \<open>n\<close> passes through the loop (seven steps each) the index is \<open>n\<close> and the trace holds
  the events of the ticks 0 to \<open>n - 1\<close>, each with that message.
\<close>

theorem animation_ticks:
  "(\<exists>s. accepts col (monitor0 msg) (trace (run_work acts (start (Spinner_init msg col)))) = Some s
        \<and> shown s = last (msg # updates acts))
   \<and> (animate_step ^^ (1 + 7 * n)) (start (Spinner_init msg col))
       = \<lparr>message = msg, color = col, running = True,
          thread = Some \<lparr>pc = At_while, idx = n,
                          frame = (if n = 0 then [] else FRAMES ! ((n - 1) mod length FRAMES)),
                          built = (if n = 0 then []
                                   else 13 # col @ FRAMES ! ((n - 1) mod length FRAMES) @ ENDC @ 32 # msg)\<rparr>,
          trace = Call Start
            # concat (map (\<lambda>k. [Write Bg (13 # col @ FRAMES ! (k mod length FRAMES) @ ENDC @ 32 # msg),
                                 Flush Bg, Sleep 80]) [0..<n])\<rparr>"
proof
  let ?w = "run_work acts (start (Spinner_init msg col))"
  have "in_sync msg ?w"
    by (intro in_sync_work in_sync_start)
  then obtain s where "accepts (color ?w) (monitor0 msg) (trace ?w) = Some s" "shown s = message ?w"
    using in_sync_accepts by blast
  then show "\<exists>s. accepts col (monitor0 msg) (trace ?w) = Some s \<and> shown s = last (msg # updates acts)"
    by (simp add: run_work_message)
next
  have "tick_events col msg
      = (\<lambda>k. [Write Bg (13 # col @ FRAMES ! (k mod length FRAMES) @ ENDC @ 32 # msg), Flush Bg, Sleep 80])"
    by (rule ext) (simp add: tick_events_def)
  then show "(animate_step ^^ (1 + 7 * n)) (start (Spinner_init msg col))
       = \<lparr>message = msg, color = col, running = True,
          thread = Some \<lparr>pc = At_while, idx = n,
                          frame = (if n = 0 then [] else FRAMES ! ((n - 1) mod length FRAMES)),
                          built = (if n = 0 then []
                                   else 13 # col @ FRAMES ! ((n - 1) mod length FRAMES) @ ENDC @ 32 # msg)\<rparr>,
          trace = Call Start
            # concat (map (\<lambda>k. [Write Bg (13 # col @ FRAMES ! (k mod length FRAMES) @ ENDC @ 32 # msg),
                                 Flush Bg, Sleep 80]) [0..<n])\<rparr>"
    using n_ticks [of n msg col] by (simp add: frame_line_def)
qed

theorem animation_ticks_witness:
  "(\<exists>s. accepts CYAN (monitor0 (ascii ''Working...''))
          (trace (run_work [Bg_step, Bg_step, Bg_step, Bg_step, Update (ascii ''Almost...''), Bg_step, Bg_step]
                    (start (Spinner_init (ascii ''Working...'') CYAN)))) = Some s
        \<and> shown s = ascii ''Almost...'')
   \<and> trace ((animate_step ^^ (1 + 7 * 2)) (start (Spinner_init (ascii ''Working...'') CYAN)))
       = [Call Start,
          Write Bg (13 # CYAN @ [10251] @ ENDC @ 32 # ascii ''Working...''), Flush Bg, Sleep 80,
          Write Bg (13 # CYAN @ [10265] @ ENDC @ 32 # ascii ''Working...''), Flush Bg, Sleep 80]"
proof -
  note inst = animation_ticks [of CYAN "ascii ''Working...''"
      "[Bg_step, Bg_step, Bg_step, Bg_step, Update (ascii ''Almost...''), Bg_step, Bg_step]" 2]
  have u: "[0..<2] = [0, 1]"
    by (simp add: upt_rec)
  have "trace ((animate_step ^^ (1 + 7 * 2)) (start (Spinner_init (ascii ''Working...'') CYAN)))
       = [Call Start,
          Write Bg (13 # CYAN @ [10251] @ ENDC @ 32 # ascii ''Working...''), Flush Bg, Sleep 80,
          Write Bg (13 # CYAN @ [10265] @ ENDC @ 32 # ascii ''Working...''), Flush Bg, Sleep 80]"
    by (simp only: inst [THEN conjunct2] u) (simp add: FRAMES_def)
  moreover have "\<exists>s. accepts CYAN (monitor0 (ascii ''Working...''))
          (trace (run_work [Bg_step, Bg_step, Bg_step, Bg_step, Update (ascii ''Almost...''), Bg_step, Bg_step]
                    (start (Spinner_init (ascii ''Working...'') CYAN)))) = Some s
        \<and> shown s = ascii ''Almost...''"
    using inst [THEN conjunct1] by simp
  ultimately show ?thesis
    by blast
qed

lemma stop_after_work_in_sync:
  "\<exists>w'. stop fm sy scol (run_work acts (start (Spinner_init msg col))) = Some w'
     \<and> in_sync msg w' \<and> color w' = col \<and> message w' = last (msg # updates acts)"
proof -
  let ?w = "run_work acts (start (Spinner_init msg col))"
  have r: "running ?w" by simp
  have s: "in_sync msg ?w"
    by (intro in_sync_work in_sync_start)
  obtain w' where w': "stop fm sy scol ?w = Some w'" "in_sync msg w'"
    using in_sync_stop [OF s r] by blast
  have "color w' = color ?w" "message w' = message ?w"
    using stop_keeps_construction [OF w'(1)] by simp_all
  then show ?thesis
    using w' by (simp add: run_work_message)
qed

lemma funpow_numeral_step: "(f ^^ numeral k) x = (f ^^ pred_numeral k) (f x)"
  by (simp add: numeral_eq_Suc funpow_swap1)

lemma first_frame: "FRAMES ! 0 = [10251]"
  by (simp add: FRAMES_def)

lemmas run_simps = stop_running finish_def steps_left_def start_def Spinner_init_def emit_def
  animate_step_def update_message_def funpow_numeral_step frame_line_def first_frame

lemma settled_schedule:
  "map_option (settle Fresh \<circ> trace)
     (stop (ascii ''Done'') CHECK GREEN
        (run_work [Bg_step, Bg_step, Bg_step, Bg_step, Bg_step, Update (ascii ''Almost...''),
                   Bg_step, Bg_step, Bg_step, Bg_step, Bg_step, Bg_step, Bg_step]
           (start (Spinner_init (ascii ''Working...'') CYAN)))) = Some Shown"
  by (simp add: run_simps)

lemma in_flight_frame_example:
  "map_option (\<lambda>w. (settle Fresh (trace w), map fst (rendered [ascii ''Working...''] (trace w)), message w))
     (stop (ascii ''Done'') CHECK GREEN
        (run_work [Bg_step, Bg_step, Bg_step, Bg_step, Update (ascii ''Almost...''), Bg_step]
           (start (Spinner_init (ascii ''Working...'') CYAN))))
     = Some (Fresh, [13 # CYAN @ [10251] @ ENDC @ 32 # ascii ''Working...''], ascii ''Almost...'')"
  by (simp add: run_simps)

text \<open>
  Claim C8. Every call \<open>update_message(text)\<close> replaces the message with its argument, so
  after any sequence of calls the message is the argument of the last one, or the
  construction message if there was none. Every frame the animation thread writes, up to
  the return of \<open>stop()\<close>, shows a message that was set at some moment since the tick of that
  frame began: a tick that starts after a call shows the argument of that call or of a
  later one, while a frame whose string was built before a call may still show the message
  of before. Within one animation tick: as soon as, after the last call, the thread has
  slept and then written a frame, the last frame written before \<open>stop()\<close> returns shows the
  last message set.
\<close>

theorem update_message_last_write_wins:
  "message (update_message m w) = m
   \<and> message (run_work acts w) = last (message w # updates acts)
   \<and> (\<exists>w'. stop fm sy scol (run_work acts (start (Spinner_init msg col))) = Some w'
        \<and> message w' = last (msg # updates acts)
        \<and> (\<forall>xms \<in> set (rendered [msg] (trace w')).
              \<exists>k. \<exists>m \<in> set (snd xms).
                fst xms = 13 # col @ FRAMES ! (k mod length FRAMES) @ ENDC @ 32 # m)
        \<and> (settle Fresh (trace w') = Shown \<longrightarrow>
              rendered [msg] (trace w') \<noteq> []
              \<and> snd (last (rendered [msg] (trace w'))) = [last (msg # updates acts)]
              \<and> (\<exists>k. fst (last (rendered [msg] (trace w')))
                     = 13 # col @ FRAMES ! (k mod length FRAMES) @ ENDC @ 32 # last (msg # updates acts))))"
proof (intro conjI)
  show "message (update_message m w) = m"
    by simp
  show "message (run_work acts w) = last (message w # updates acts)"
    by (rule run_work_message)
  obtain w' where w': "stop fm sy scol (run_work acts (start (Spinner_init msg col))) = Some w'"
    "in_sync msg w'" "color w' = col" "message w' = last (msg # updates acts)"
    using stop_after_work_in_sync by blast
  obtain s where s: "accepts col (monitor0 msg) (trace w') = Some s" "shown s = message w'"
    using in_sync_accepts [OF w'(2)] w'(3) by auto
  have m0: "seen (monitor0 msg) = [msg]" "shown (monitor0 msg) = msg" "seen (monitor0 msg) \<noteq> []"
    "hd (seen (monitor0 msg)) = shown (monitor0 msg)"
    by (simp_all add: monitor0_def)
  have a: "\<forall>xms \<in> set (rendered [msg] (trace w')).
              \<exists>k. \<exists>m \<in> set (snd xms).
                fst xms = 13 # col @ FRAMES ! (k mod length FRAMES) @ ENDC @ 32 # m"
    using accepts_rendered [OF s(1) m0(3,4)] unfolding m0(1) by blast
  have b: "settle Fresh (trace w') = Shown \<longrightarrow>
              rendered [msg] (trace w') \<noteq> []
              \<and> snd (last (rendered [msg] (trace w'))) = [last (msg # updates acts)]
              \<and> (\<exists>k. fst (last (rendered [msg] (trace w')))
                     = 13 # col @ FRAMES ! (k mod length FRAMES) @ ENDC @ 32 # last (msg # updates acts))"
  proof
    assume st: "settle Fresh (trace w') = Shown"
    have "Fresh \<noteq> Dirty \<longrightarrow> seen (monitor0 msg) = [shown (monitor0 msg)]"
      by (simp add: monitor0_def)
    from accepts_settled [OF s(1) m0(3,4) this st]
    have l: "rendered [msg] (trace w') \<noteq> []"
      "snd (last (rendered [msg] (trace w'))) = [last (msg # updates acts)]"
      using s(2) w'(4) unfolding m0(1) by auto
    have "last (rendered [msg] (trace w')) \<in> set (rendered [msg] (trace w'))"
      using l(1) by simp
    then obtain k where "\<exists>m \<in> set (snd (last (rendered [msg] (trace w')))).
        fst (last (rendered [msg] (trace w'))) = 13 # col @ FRAMES ! (k mod length FRAMES) @ ENDC @ 32 # m"
      using a by blast
    then have "fst (last (rendered [msg] (trace w')))
        = 13 # col @ FRAMES ! (k mod length FRAMES) @ ENDC @ 32 # last (msg # updates acts)"
      unfolding l(2) by simp
    then show "rendered [msg] (trace w') \<noteq> []
              \<and> snd (last (rendered [msg] (trace w'))) = [last (msg # updates acts)]
              \<and> (\<exists>k. fst (last (rendered [msg] (trace w')))
                     = 13 # col @ FRAMES ! (k mod length FRAMES) @ ENDC @ 32 # last (msg # updates acts))"
      using l by blast
  qed
  show "\<exists>w'. stop fm sy scol (run_work acts (start (Spinner_init msg col))) = Some w'
        \<and> message w' = last (msg # updates acts)
        \<and> (\<forall>xms \<in> set (rendered [msg] (trace w')).
              \<exists>k. \<exists>m \<in> set (snd xms).
                fst xms = 13 # col @ FRAMES ! (k mod length FRAMES) @ ENDC @ 32 # m)
        \<and> (settle Fresh (trace w') = Shown \<longrightarrow>
              rendered [msg] (trace w') \<noteq> []
              \<and> snd (last (rendered [msg] (trace w'))) = [last (msg # updates acts)]
              \<and> (\<exists>k. fst (last (rendered [msg] (trace w')))
                     = 13 # col @ FRAMES ! (k mod length FRAMES) @ ENDC @ 32 # last (msg # updates acts)))"
    by (rule exI [of _ w']) (rule conjI [OF w'(1) conjI [OF w'(4) conjI [OF a b]]])
qed

theorem update_message_last_write_wins_witness:
  "\<exists>w'. stop (ascii ''Done'') CHECK GREEN
        (run_work [Bg_step, Bg_step, Bg_step, Bg_step, Bg_step, Update (ascii ''Almost...''),
                   Bg_step, Bg_step, Bg_step, Bg_step, Bg_step, Bg_step, Bg_step]
           (start (Spinner_init (ascii ''Working...'') CYAN))) = Some w'
      \<and> message w' = ascii ''Almost...''
      \<and> settle Fresh (trace w') = Shown
      \<and> rendered [ascii ''Working...''] (trace w') \<noteq> []
      \<and> snd (last (rendered [ascii ''Working...''] (trace w'))) = [ascii ''Almost...'']
      \<and> (\<exists>k. fst (last (rendered [ascii ''Working...''] (trace w')))
             = 13 # CYAN @ FRAMES ! (k mod length FRAMES) @ ENDC @ 32 # ascii ''Almost...'')"
proof -
  let ?acts = "[Bg_step, Bg_step, Bg_step, Bg_step, Bg_step, Update (ascii ''Almost...''),
                   Bg_step, Bg_step, Bg_step, Bg_step, Bg_step, Bg_step, Bg_step]"
  have u: "last (ascii ''Working...'' # updates ?acts) = ascii ''Almost...''"
    by simp
  obtain w' where w': "stop (ascii ''Done'') CHECK GREEN
        (run_work ?acts (start (Spinner_init (ascii ''Working...'') CYAN))) = Some w'"
    "message w' = ascii ''Almost...''"
    "settle Fresh (trace w') = Shown \<longrightarrow>
              rendered [ascii ''Working...''] (trace w') \<noteq> []
              \<and> snd (last (rendered [ascii ''Working...''] (trace w'))) = [ascii ''Almost...'']
              \<and> (\<exists>k. fst (last (rendered [ascii ''Working...''] (trace w')))
                     = 13 # CYAN @ FRAMES ! (k mod length FRAMES) @ ENDC @ 32 # ascii ''Almost...'')"
    using update_message_last_write_wins [where acts = ?acts and fm = "ascii ''Done''"
        and sy = CHECK and scol = GREEN and msg = "ascii ''Working...''" and col = CYAN,
        THEN conjunct2, THEN conjunct2]
    unfolding u by (elim exE conjE) (rule that)
  have "settle Fresh (trace w') = Shown"
    using settled_schedule w'(1) by simp
  then show ?thesis
    using w' by blast
qed

end
